theory Spec2Isabelle
  imports Complex_Main
begin

section \<open>Values\<close>

text \<open>
  A JavaScript number, as far as \<^verbatim>\<open>index.js\<close> looks at one: it is compared with \<open>1\<close>,
  decremented, and compared with an array length. A finite double is a rational number;
  the decrement of a finite value is taken exactly (the rounding of doubles beyond
  \<open>2^53\<close> is not modelled).
\<close>

datatype number = NaN | Finite rat | PosInfinity | NegInfinity

text \<open>\<^verbatim>\<open>n < 1\<close>: every comparison with \<^verbatim>\<open>NaN\<close> is false.\<close>

fun less_than_one :: "number \<Rightarrow> bool" where
  "less_than_one NaN = False"
| "less_than_one (Finite q) = (q < 1)"
| "less_than_one PosInfinity = False"
| "less_than_one NegInfinity = True"

text \<open>\<^verbatim>\<open>--n\<close>.\<close>

fun decrement :: "number \<Rightarrow> number" where
  "decrement NaN = NaN"
| "decrement (Finite q) = Finite (q - 1)"
| "decrement PosInfinity = PosInfinity"
| "decrement NegInfinity = NegInfinity"

text \<open>\<^verbatim>\<open>length > n\<close> for an array length.\<close>

fun length_exceeds :: "nat \<Rightarrow> number \<Rightarrow> bool" where
  "length_exceeds k NaN = False"
| "length_exceeds k (Finite q) = (q < of_nat k)"
| "length_exceeds k PosInfinity = False"
| "length_exceeds k NegInfinity = True"

text \<open>
  The \<^verbatim>\<open>options\<close> object of \<^verbatim>\<open>addListener\<close>: \<open>opt_count\<close> is \<open>None\<close> when
  \<^verbatim>\<open>options.count\<close> is \<^verbatim>\<open>undefined\<close> or \<^verbatim>\<open>null\<close> (the two values \<^verbatim>\<open>??\<close> replaces),
  \<open>opt_prepend\<close> is the truthiness of \<^verbatim>\<open>options.prepend\<close>.
\<close>

datatype options = Options (opt_count: "number option") (opt_prepend: bool)

text \<open>
  JavaScript values. A function and a promise are references, compared by identity
  (\<open>Function f\<close>, \<open>Promise p\<close>); \<open>Record l\<close> is the listener record object
  \<^verbatim>\<open>{callback, count}\<close> stored at address \<open>l\<close>; \<open>EventEmitterError message args\<close>
  is \<^verbatim>\<open>new EventEmitterError(message, ...args)\<close>. Event names are values; HOL equality
  on them stands for \<^verbatim>\<open>SameValueZero\<close> (what \<^verbatim>\<open>Map\<close> and \<^verbatim>\<open>includes\<close> use).
\<close>

datatype val =
    Undefined
  | Null
  | Boolean bool
  | Number number
  | String string
  | Function nat
  | Promise nat
  | Record nat
  | Object options
  | Array "val list"
  | EventEmitterError string "val list"

text \<open>The directive \<^verbatim>\<open>onError\<close> of \<^verbatim>\<open>emit\<close>, documented as
  \<^verbatim>\<open>{undefined|null|false|Function}\<close>. A handler returns a value (\<open>Inr\<close>) or throws one
  (\<open>Inl\<close>).\<close>

datatype onError =
    OnUndefined
  | OnNull
  | OnFalse
  | OnFunction "val \<Rightarrow> val + val"

section \<open>handleError\<close>

text \<open>\<^verbatim>\<open>results[index] = value\<close>: past the end, JavaScript lengthens the array; the
  holes it leaves read as \<^verbatim>\<open>undefined\<close>.\<close>

definition store :: "val list \<Rightarrow> nat \<Rightarrow> val \<Rightarrow> val list" where
  "store results index v =
     (if index < length results then results[index := v]
      else results @ replicate (index - length results) Undefined @ [v])"

text \<open>\<^verbatim>\<open>results.splice(index, 1)\<close>.\<close>

definition splice1 :: "'a list \<Rightarrow> nat \<Rightarrow> 'a list" where
  "splice1 xs index = take index xs @ drop (Suc index) xs"

definition setval :: "val list \<Rightarrow> nat option \<Rightarrow> val \<Rightarrow> val list" where
  "setval results index v =
     (case index of None \<Rightarrow> results @ [v] | Some i \<Rightarrow> store results i v)"

text \<open>The last statement of \<^verbatim>\<open>handleError\<close>:
  \<^verbatim>\<open>if (index !== undefined) results.splice(index, 1)\<close>.\<close>

definition drop_slot :: "val list \<Rightarrow> nat option \<Rightarrow> val list" where
  "drop_slot results index =
     (case index of None \<Rightarrow> results | Some i \<Rightarrow> splice1 results i)"

text \<open>\<^verbatim>\<open>handleError(results, error, onError, index)\<close> mutates \<^verbatim>\<open>results\<close> or throws:
  \<open>Inl\<close> is the value thrown, \<open>Inr\<close> the array afterwards.\<close>

fun handleError :: "val list \<Rightarrow> val \<Rightarrow> onError \<Rightarrow> nat option \<Rightarrow> val + val list" where
  "handleError results error OnUndefined index = Inl error"
| "handleError results error OnFalse index = Inr (setval results index error)"
| "handleError results error (OnFunction h) index =
     (case h error of
        Inl thrown \<Rightarrow> Inl thrown
      | Inr retval \<Rightarrow>
          if retval \<noteq> Undefined then Inr (setval results index retval)
          else Inr (drop_slot results index))"
| "handleError results error OnNull index = Inr (drop_slot results index)"

section \<open>The emitter\<close>

text \<open>A listener record \<^verbatim>\<open>{callback, count}\<close>.\<close>

record listener =
  callback :: nat
  count :: number

text \<open>
  The fields of an \<^verbatim>\<open>EventEmitter\<close>, and the store they live in. \<open>events\<close> is the Map
  \<^verbatim>\<open>_events\<close>: it gives an event name the address of its array. \<open>arrays\<close> holds the array
  objects, each the addresses of its listener records, and \<open>heap\<close> the record objects:
  a method that has read the array of an event goes on working on that very array,
  whatever the Map holds later, and the copy made by \<^verbatim>\<open>slice()\<close> shares its records with
  the array. \<open>fresh_array\<close> and \<open>fresh\<close> are the next unused addresses. \<open>warned\<close> collects
  what \<^verbatim>\<open>process.emitWarning\<close> was given. \<open>trace\<close> is an observation, not a field of the
  source: the addresses of the records whose callback was called, oldest first.
\<close>

record emitter =
  events :: "val \<rightharpoonup> nat"
  arrays :: "nat \<Rightarrow> nat list"
  fresh_array :: nat
  maxListeners :: number
  validEvents :: "val list"
  warnings :: "val list"
  heap :: "nat \<Rightarrow> listener"
  fresh :: nat
  warned :: "val list"
  trace :: "nat list"

text \<open>The array the Map holds for an event now (empty when it holds none yet).\<close>

definition live :: "emitter \<Rightarrow> val \<Rightarrow> nat list" where
  "live em event = (case events em event of None \<Rightarrow> [] | Some a \<Rightarrow> arrays em a)"

text \<open>The loop of the constructor over its arguments, from position \<open>index\<close>.\<close>

fun add_valid :: "val list \<Rightarrow> nat \<Rightarrow> val list \<Rightarrow> val + val list" where
  "add_valid valid index [] = Inr valid"
| "add_valid valid index (event # rest) =
     (if event \<in> set valid
      then Inl (EventEmitterError ''Event #%s is already on the list: %s''
                  [Number (Finite (of_nat index)), event])
      else add_valid (valid @ [event]) (Suc index) rest)"

definition empty_emitter :: emitter where
  "empty_emitter =
     \<lparr>events = Map.empty, arrays = (\<lambda>_. []), fresh_array = 0,
      maxListeners = Finite 10, validEvents = [], warnings = [],
      heap = (\<lambda>_. \<lparr>callback = 0, count = NaN\<rparr>), fresh = 0, warned = [], trace = []\<rparr>"

text \<open>\<^verbatim>\<open>new EventEmitter(...events)\<close>.\<close>

definition new_EventEmitter :: "val list \<Rightarrow> val + emitter" where
  "new_EventEmitter evs =
     (if evs \<noteq> [] then
        (case add_valid [String ''newListener'', String ''removeListener''] 0 evs of
           Inl thrown \<Rightarrow> Inl thrown
         | Inr valid \<Rightarrow> Inr (empty_emitter\<lparr>validEvents := valid\<rparr>))
      else Inr empty_emitter)"

definition setMaxListeners :: "emitter \<Rightarrow> val \<Rightarrow> val + emitter" where
  "setMaxListeners em c =
     (case c of
        Number n \<Rightarrow>
          if less_than_one n then Inl (EventEmitterError ''Invalid count: %s'' [c])
          else Inr (em\<lparr>maxListeners := n\<rparr>)
      | _ \<Rightarrow> Inl (EventEmitterError ''Invalid count: %s'' [c]))"

text \<open>\<^verbatim>\<open>listeners(event)\<close>: throws, or returns the array the Map holds for the event,
  after storing a new empty array when it holds none. The result is the emitter
  afterwards and the address of the array returned.\<close>

definition listeners :: "emitter \<Rightarrow> val \<Rightarrow> val + emitter \<times> nat" where
  "listeners em event =
     (if validEvents em \<noteq> [] \<and> event \<notin> set (validEvents em)
      then Inl (EventEmitterError ''Invalid event name: %s'' [event])
      else case events em event of
             None \<Rightarrow>
               Inr (em\<lparr>events := (events em)(event \<mapsto> fresh_array em),
                        arrays := (arrays em)(fresh_array em := []),
                        fresh_array := Suc (fresh_array em)\<rparr>,
                    fresh_array em)
           | Some a \<Rightarrow> Inr (em, a))"

section \<open>emit\<close>

text \<open>
  What calling a listener does is not code of the emitter. It is a parameter of the
  model: \<open>call f results args em\<close> is the call \<^verbatim>\<open>f.call(data, ...args)\<close> of the function
  \<open>f\<close> in the state \<open>em\<close>, with \<^verbatim>\<open>data.results\<close> as it stands; it gives the state the
  listener leaves behind and what it returned (\<open>Inr\<close>) or threw (\<open>Inl\<close>), or \<open>None\<close>
  when the call does not return. A listener may change the emitter in any way; it is
  taken not to write to \<^verbatim>\<open>data.results\<close>.
\<close>

type_synonym invoke = "nat \<Rightarrow> val list \<Rightarrow> val list \<Rightarrow> emitter \<Rightarrow> (emitter \<times> (val + val)) option"

text \<open>\<^verbatim>\<open>args instanceof Array ? args : args === undefined ? [] : [args]\<close>.\<close>

fun arguments :: "val \<Rightarrow> val list" where
  "arguments (Array xs) = xs"
| "arguments Undefined = []"
| "arguments v = [v]"

text \<open>The first statement of the loop body, for the record \<open>l\<close> and the array \<open>a\<close> that
  \<^verbatim>\<open>emit\<close> read at its start (\<^verbatim>\<open>const listeners\<close>): \<^verbatim>\<open>--listener.count\<close>, and the removal of
  the record from that array (\<^verbatim>\<open>indexOf\<close>, \<^verbatim>\<open>splice\<close>) when the count is now below 1.\<close>

definition expire :: "nat \<Rightarrow> nat \<Rightarrow> emitter \<Rightarrow> emitter" where
  "expire a l em =
     (let c = decrement (count (heap em l));
          em1 = em\<lparr>heap := (heap em)(l := (heap em l)\<lparr>count := c\<rparr>)\<rparr>
      in if less_than_one c \<and> l \<in> set (arrays em1 a)
         then em1\<lparr>arrays := (arrays em1)(a := remove1 l (arrays em1 a))\<rparr>
         else em1)"

text \<open>The loop of \<^verbatim>\<open>emit\<close> over the copy \<^verbatim>\<open>listeners.slice()\<close> of the array \<open>a\<close>.\<close>

fun emit_loop ::
  "invoke \<Rightarrow> nat \<Rightarrow> val list \<Rightarrow> onError \<Rightarrow> nat list \<Rightarrow> emitter \<Rightarrow> val list
     \<Rightarrow> (emitter \<times> (val + val list)) option" where
  "emit_loop call a args onErr [] em results = Some (em, Inr results)"
| "emit_loop call a args onErr (l # ls) em results =
     (let em1 = expire a l em;
          em2 = em1\<lparr>trace := trace em1 @ [l]\<rparr>
      in case call (callback (heap em2 l)) results args em2 of
           None \<Rightarrow> None
         | Some (em3, Inr v) \<Rightarrow> emit_loop call a args onErr ls em3 (results @ [v])
         | Some (em3, Inl error) \<Rightarrow>
             (case handleError results error onErr None of
                Inl thrown \<Rightarrow> Some (em3, Inl thrown)
              | Inr results' \<Rightarrow> emit_loop call a args onErr ls em3 results'))"

text \<open>\<^verbatim>\<open>emit(event, args, onError)\<close>: the emitter afterwards, and the array returned
  (\<open>Inr\<close>; the only \<^verbatim>\<open>return\<close> of the method is \<^verbatim>\<open>return data.results\<close>) or the value
  thrown (\<open>Inl\<close>).\<close>

definition emit ::
  "invoke \<Rightarrow> emitter \<Rightarrow> val \<Rightarrow> val \<Rightarrow> onError \<Rightarrow> (emitter \<times> (val + val list)) option" where
  "emit call em event args onErr =
     (case listeners em event of
        Inl thrown \<Rightarrow> Some (em, Inl thrown)
      | Inr (em1, a) \<Rightarrow> emit_loop call a (arguments args) onErr (arrays em1 a) em1 [])"

section \<open>addListener, on, once\<close>

text \<open>\<^verbatim>\<open>listeners[options?.prepend ? 'unshift' : 'push']({callback: listener,
  count: options?.count ?? Infinity})\<close> on the array \<open>a\<close> that \<^verbatim>\<open>addListener\<close> read at its
  start, the new record at a fresh address; \<open>registered_count\<close> is
  \<^verbatim>\<open>options?.count ?? Infinity\<close> and \<open>prepends\<close> is \<^verbatim>\<open>options?.prepend\<close>.\<close>

definition registered_count :: "options option \<Rightarrow> number" where
  "registered_count opts =
     (case opts of
        None \<Rightarrow> PosInfinity
      | Some opt \<Rightarrow> (case opt_count opt of None \<Rightarrow> PosInfinity | Some n \<Rightarrow> n))"

definition prepends :: "options option \<Rightarrow> bool" where
  "prepends opts = (case opts of None \<Rightarrow> False | Some opt \<Rightarrow> opt_prepend opt)"

definition insert_record :: "nat \<Rightarrow> nat \<Rightarrow> options option \<Rightarrow> emitter \<Rightarrow> emitter" where
  "insert_record a f opts em =
     (let l = fresh em in
      em\<lparr>arrays := (arrays em)(a :=
             (if prepends opts then l # arrays em a else arrays em a @ [l])),
         heap := (heap em)(l := \<lparr>callback = f, count = registered_count opts\<rparr>),
         fresh := Suc l\<rparr>)"

text \<open>The argument \<^verbatim>\<open>options\<close> as a value.\<close>

definition options_val :: "options option \<Rightarrow> val" where
  "options_val opts = (case opts of None \<Rightarrow> Undefined | Some opt \<Rightarrow> Object opt)"

text \<open>\<^verbatim>\<open>listener instanceof Array ? listener : [listener]\<close>.\<close>

fun as_array :: "val \<Rightarrow> val list" where
  "as_array (Array xs) = xs"
| "as_array v = [v]"

text \<open>The \<^verbatim>\<open>forEach\<close> of \<^verbatim>\<open>addListener\<close>, from position \<open>index\<close>.\<close>

fun addListener_each ::
  "invoke \<Rightarrow> val \<Rightarrow> nat \<Rightarrow> options option \<Rightarrow> nat \<Rightarrow> val list \<Rightarrow> emitter
     \<Rightarrow> (emitter \<times> (val + unit)) option" where
  "addListener_each call event a opts index [] em = Some (em, Inr ())"
| "addListener_each call event a opts index (x # xs) em =
     (case x of
        Function f \<Rightarrow>
          (case emit call em (String ''newListener'') (Array [event, x, options_val opts]) OnUndefined of
             None \<Rightarrow> None
           | Some (em1, Inl thrown) \<Rightarrow> Some (em1, Inl thrown)
           | Some (em1, Inr _) \<Rightarrow>
               addListener_each call event a opts (Suc index) xs (insert_record a f opts em1))
      | _ \<Rightarrow> Some (em, Inl (EventEmitterError ''Invalid function #%s: %s''
                              [Number (Finite (of_nat index)), x])))"

text \<open>The warning after the loop.\<close>

definition warn_leak :: "val \<Rightarrow> nat \<Rightarrow> emitter \<Rightarrow> emitter" where
  "warn_leak event a em =
     (if length_exceeds (length (arrays em a)) (maxListeners em) \<and> event \<notin> set (warnings em)
      then em\<lparr>warned := warned em @
                 [EventEmitterError ''Possible memory leak detected: %s listeners added to %s''
                    [Number (Finite (of_nat (length (arrays em a)))), event]],
              warnings := warnings em @ [event]\<rparr>
      else em)"

definition addListener ::
  "invoke \<Rightarrow> emitter \<Rightarrow> val \<Rightarrow> val \<Rightarrow> options option \<Rightarrow> (emitter \<times> (val + unit)) option" where
  "addListener call em event listener opts =
     (case listeners em event of
        Inl thrown \<Rightarrow> Some (em, Inl thrown)
      | Inr (em1, a) \<Rightarrow>
          (case addListener_each call event a opts 0 (as_array listener) em1 of
             None \<Rightarrow> None
           | Some (em2, Inl thrown) \<Rightarrow> Some (em2, Inl thrown)
           | Some (em2, Inr _) \<Rightarrow> Some (warn_leak event a em2, Inr ())))"

text \<open>\<^verbatim>\<open>{...options, count: c}\<close>, with \<^verbatim>\<open>options = {}\<close> when the argument is left out.\<close>

definition with_count :: "options option \<Rightarrow> number \<Rightarrow> options" where
  "with_count opts c = Options (Some c) (prepends opts)"

definition on ::
  "invoke \<Rightarrow> emitter \<Rightarrow> val \<Rightarrow> val \<Rightarrow> options option \<Rightarrow> (emitter \<times> (val + unit)) option" where
  "on call em event listener opts =
     addListener call em event listener (Some (with_count opts PosInfinity))"

definition once ::
  "invoke \<Rightarrow> emitter \<Rightarrow> val \<Rightarrow> val \<Rightarrow> options option \<Rightarrow> (emitter \<times> (val + unit)) option" where
  "once call em event listener opts =
     addListener call em event listener (Some (with_count opts (Finite 1)))"

section \<open>removeListener\<close>

text \<open>The argument \<^verbatim>\<open>listener\<close> of \<^verbatim>\<open>removeListener\<close>: the very array the method read for
  the event (the case \<^verbatim>\<open>listener === listeners\<close>) or any other value.\<close>

datatype removal = LiveArray | Value val

text \<open>\<^verbatim>\<open>listeners.findIndex(p)\<close>, \<open>None\<close> for \<open>-1\<close>.\<close>

fun findIndex :: "('a \<Rightarrow> bool) \<Rightarrow> 'a list \<Rightarrow> nat option" where
  "findIndex p [] = None"
| "findIndex p (x # xs) =
     (if p x then Some 0 else map_option Suc (findIndex p xs))"

text \<open>An element of the list is a function, or an object whose \<^verbatim>\<open>callback\<close> is one.\<close>

fun callback_of :: "emitter \<Rightarrow> val \<Rightarrow> nat option" where
  "callback_of em (Function f) = Some f"
| "callback_of em (Record l) = Some (callback (heap em l))"
| "callback_of em v = None"

text \<open>The \<^verbatim>\<open>forEach\<close> of \<^verbatim>\<open>removeListener\<close>, from position \<open>index\<close>, on the array \<open>a\<close> the
  method read at its start.\<close>

fun removeListener_each ::
  "invoke \<Rightarrow> val \<Rightarrow> nat \<Rightarrow> nat \<Rightarrow> val list \<Rightarrow> emitter \<Rightarrow> (emitter \<times> (val + unit)) option" where
  "removeListener_each call event a index [] em = Some (em, Inr ())"
| "removeListener_each call event a index (x # xs) em =
     (case callback_of em x of
        None \<Rightarrow> Some (em, Inl (EventEmitterError ''Invalid function #%s: %s''
                                [Number (Finite (of_nat index)), x]))
      | Some f \<Rightarrow>
          (case findIndex (\<lambda>l. callback (heap em l) = f) (arrays em a) of
             None \<Rightarrow> removeListener_each call event a (Suc index) xs em
           | Some pos \<Rightarrow>
               (case emit call (em\<lparr>arrays := (arrays em)(a := splice1 (arrays em a) pos)\<rparr>)
                       (String ''removeListener'') (Array [event, Function f]) OnUndefined of
                  None \<Rightarrow> None
                | Some (em1, Inl thrown) \<Rightarrow> Some (em1, Inl thrown)
                | Some (em1, Inr _) \<Rightarrow> removeListener_each call event a (Suc index) xs em1)))"

definition removeListener ::
  "invoke \<Rightarrow> emitter \<Rightarrow> val \<Rightarrow> removal \<Rightarrow> (emitter \<times> (val + unit)) option" where
  "removeListener call em event listener =
     (case listeners em event of
        Inl thrown \<Rightarrow> Some (em, Inl thrown)
      | Inr (em1, a) \<Rightarrow>
          removeListener_each call event a 0
            (case listener of
               LiveArray \<Rightarrow> map Record (arrays em1 a)
             | Value v \<Rightarrow> as_array v)
            em1)"

section \<open>Listeners that use the emitter\<close>

text \<open>
  A listener whose body is a sequence of calls of the emitter's methods, followed by a
  \<^verbatim>\<open>return\<close> (\<open>Inr\<close>) or a \<^verbatim>\<open>throw\<close> (\<open>Inl\<close>); a method that throws ends the body with
  what it threw. \<open>run bodies depth\<close> calls such listeners, nested at most \<open>depth\<close> deep:
  a deeper nesting gives no result.
\<close>

datatype stmt =
    AddListener val val "options option"
  | On val val "options option"
  | Once val val "options option"
  | RemoveListener val removal
  | Emit val val onError

datatype body = Body (stmts: "stmt list") (completion: "val + val")

fun exec_stmt :: "invoke \<Rightarrow> stmt \<Rightarrow> emitter \<Rightarrow> (emitter \<times> (val + unit)) option" where
  "exec_stmt call (AddListener event listener opts) em = addListener call em event listener opts"
| "exec_stmt call (On event listener opts) em = on call em event listener opts"
| "exec_stmt call (Once event listener opts) em = once call em event listener opts"
| "exec_stmt call (RemoveListener event listener) em = removeListener call em event listener"
| "exec_stmt call (Emit event args onErr) em =
     (case emit call em event args onErr of
        None \<Rightarrow> None
      | Some (em1, Inl thrown) \<Rightarrow> Some (em1, Inl thrown)
      | Some (em1, Inr _) \<Rightarrow> Some (em1, Inr ()))"

fun exec_body :: "invoke \<Rightarrow> stmt list \<Rightarrow> val + val \<Rightarrow> emitter \<Rightarrow> (emitter \<times> (val + val)) option" where
  "exec_body call [] fin em = Some (em, fin)"
| "exec_body call (s # ss) fin em =
     (case exec_stmt call s em of
        None \<Rightarrow> None
      | Some (em1, Inl thrown) \<Rightarrow> Some (em1, Inl thrown)
      | Some (em1, Inr _) \<Rightarrow> exec_body call ss fin em1)"

primrec run :: "(nat \<Rightarrow> body) \<Rightarrow> nat \<Rightarrow> invoke" where
  "run bodies 0 = (\<lambda>f results args em. None)"
| "run bodies (Suc depth) =
     (\<lambda>f results args em.
        exec_body (run bodies depth) (stmts (bodies f)) (completion (bodies f)) em)"

section \<open>emit2\<close>

text \<open>
  \<^verbatim>\<open>emit2\<close> calls \<^verbatim>\<open>emit\<close>; what that throws, it throws. The test \<^verbatim>\<open>if (!results)\<close> that
  follows never holds, since \<^verbatim>\<open>emit\<close> returns an array and an array is truthy.
  The promise \<^verbatim>\<open>emit2\<close> returns, \<^verbatim>\<open>Promise.all(promises).then(() => results)\<close>, and what
  it closes over: the array \<^verbatim>\<open>results\<close>, the indices whose continuation has not run yet
  (in the order the loop attached them, last index first), and the directive.
  \<^verbatim>\<open>Promise.all\<close> is rejected by the first of its promises that is rejected, and
  fulfilled once all are fulfilled.
\<close>

datatype settled = Pending | Fulfilled "val list" | Rejected val

record handle =
  entries :: "val list"
  waiting :: "nat list"
  directive :: onError
  outcome :: settled

fun is_promise :: "val \<Rightarrow> bool" where
  "is_promise (Promise p) = True"
| "is_promise v = False"

text \<open>\<^verbatim>\<open>for (let index = results.length - 1; index >= 0; --index)
  if (results[index] instanceof Promise) ...\<close>.\<close>

definition promise_indices :: "val list \<Rightarrow> nat list" where
  "promise_indices rs = filter (\<lambda>i. is_promise (rs ! i)) (rev [0..<length rs])"

text \<open>\<^verbatim>\<open>Promise.all\<close> is fulfilled when none of its promises is left.\<close>

definition all_done :: "handle \<Rightarrow> handle" where
  "all_done h =
     (if outcome h = Pending \<and> waiting h = [] then h\<lparr>outcome := Fulfilled (entries h)\<rparr> else h)"

definition emit2 ::
  "invoke \<Rightarrow> emitter \<Rightarrow> val \<Rightarrow> val \<Rightarrow> onError \<Rightarrow> (emitter \<times> (val + handle)) option" where
  "emit2 call em event args onErr =
     (case emit call em event args onErr of
        None \<Rightarrow> None
      | Some (em1, Inl thrown) \<Rightarrow> Some (em1, Inl thrown)
      | Some (em1, Inr rs) \<Rightarrow>
          Some (em1, Inr (all_done \<lparr>entries = rs, waiting = promise_indices rs,
                                    directive = onErr, outcome = Pending\<rparr>)))"

text \<open>
  The promise at \<open>index\<close> settles, fulfilled with a value (\<open>Inr\<close>) or rejected with a
  reason (\<open>Inl\<close>), and its continuation runs:
  \<^verbatim>\<open>value => results[index] = value\<close> or
  \<^verbatim>\<open>error => handleError(results, error, onError, index)\<close>.
  A continuation that throws rejects the promise \<^verbatim>\<open>then\<close> made, and with it the
  promise of \<^verbatim>\<open>Promise.all\<close> if that is still pending.
\<close>

definition settle :: "handle \<Rightarrow> nat \<Rightarrow> val + val \<Rightarrow> handle" where
  "settle h index s =
     (if index \<notin> set (waiting h) then h
      else
        let h1 = h\<lparr>waiting := remove1 index (waiting h)\<rparr> in
        case s of
          Inr v \<Rightarrow> all_done (h1\<lparr>entries := store (entries h1) index v\<rparr>)
        | Inl error \<Rightarrow>
            (case handleError (entries h1) error (directive h1) (Some index) of
               Inl thrown \<Rightarrow>
                 (if outcome h1 = Pending then h1\<lparr>outcome := Rejected thrown\<rparr> else h1)
             | Inr rs \<Rightarrow> all_done (h1\<lparr>entries := rs\<rparr>)))"

text \<open>The promises settle one after the other, in any order.\<close>

fun settle_all :: "handle \<Rightarrow> (nat \<times> (val + val)) list \<Rightarrow> handle" where
  "settle_all h [] = h"
| "settle_all h ((index, s) # rest) = settle_all (settle h index s) rest"

section \<open>What the listeners do\<close>

text \<open>
  A call is quiet when the listener, whatever else it does to the emitter, does not
  get a listener called in its turn: the trace is the same after the call.
\<close>

definition quiet :: "invoke \<Rightarrow> bool" where
  "quiet call \<longleftrightarrow>
     (\<forall>f results args em em' r. call f results args em = Some (em', r) \<longrightarrow> trace em' = trace em)"

text \<open>
  The listeners answer with \<open>ret\<close> when the call of the function \<open>f\<close> with the arguments
  \<open>args\<close> always returns the value \<open>ret f args\<close>, gets no listener called, and leaves
  the callback of every record there is as it was. They may add records and arrays,
  take records out of arrays, put the arrays of the Map in another order or store
  other arrays in it.
\<close>

definition answers :: "invoke \<Rightarrow> (nat \<Rightarrow> val list \<Rightarrow> val) \<Rightarrow> bool" where
  "answers call ret \<longleftrightarrow>
     (\<forall>f results args em. \<exists>em'.
        call f results args em = Some (em', Inr (ret f args)) \<and> trace em' = trace em
        \<and> fresh em \<le> fresh em'
        \<and> (\<forall>l. l < fresh em \<longrightarrow> callback (heap em' l) = callback (heap em l)))"

text \<open>
  The listeners leave the record \<open>l\<close> of the event undisturbed when a call, made while
  the record exists and the Map holds the array \<open>a\<close> for the event, does not write to
  the record, leaves the array \<open>a\<close> in the Map for the event, and does not put the record
  into that array (again). They may add other records to the array and take records
  out of it.
\<close>

definition undisturbed :: "invoke \<Rightarrow> val \<Rightarrow> nat \<Rightarrow> bool" where
  "undisturbed call event l \<longleftrightarrow>
     (\<forall>f results args em em' r a.
        call f results args em = Some (em', r) \<and> l < fresh em \<and> events em event = Some a \<longrightarrow>
          fresh em \<le> fresh em' \<and> heap em' l = heap em l \<and> events em' event = Some a
          \<and> count_list (arrays em' a) l \<le> count_list (arrays em a) l)"

text \<open>Every array of the Map has an address that is in use (below \<open>fresh_array\<close>), and
  two events do not share an array.\<close>

definition allocated :: "emitter \<Rightarrow> bool" where
  "allocated em \<longleftrightarrow> (\<forall>e a. events em e = Some a \<longrightarrow> a < fresh_array em)"

definition apart :: "emitter \<Rightarrow> val \<Rightarrow> val \<Rightarrow> bool" where
  "apart em e e' \<longleftrightarrow> (\<forall>a. events em e = Some a \<longrightarrow> events em e' \<noteq> Some a)"

text \<open>The store is well formed when both hold for all events; the listeners are orderly
  when a call made in a well-formed store leaves a well-formed store.\<close>

definition wellformed :: "emitter \<Rightarrow> bool" where
  "wellformed em \<longleftrightarrow> allocated em \<and> (\<forall>e e'. e \<noteq> e' \<longrightarrow> apart em e e')"

definition orderly :: "invoke \<Rightarrow> bool" where
  "orderly call \<longleftrightarrow>
     (\<forall>f results args em em' r.
        call f results args em = Some (em', r) \<and> wellformed em \<longrightarrow> wellformed em')"

text \<open>The calls \<^verbatim>\<open>emitter.on(event, f, options)\<close> for a list of functions with their
  options, in order.\<close>

fun on_each ::
  "invoke \<Rightarrow> emitter \<Rightarrow> val \<Rightarrow> (nat \<times> options option) list \<Rightarrow> (emitter \<times> (val + unit)) option" where
  "on_each call em event [] = Some (em, Inr ())"
| "on_each call em event ((f, opts) # regs) =
     (case on call em event (Function f) opts of
        None \<Rightarrow> None
      | Some (em1, Inl thrown) \<Rightarrow> Some (em1, Inl thrown)
      | Some (em1, Inr _) \<Rightarrow> on_each call em1 event regs)"

section \<open>Emitters and listeners of the examples\<close>

text \<open>The three listeners of the README: the first returns \<^verbatim>\<open>'a'\<close>, the second throws
  \<^verbatim>\<open>'e'\<close>, every other returns \<^verbatim>\<open>'b'\<close>; none of them uses the emitter.\<close>

definition abc :: "nat \<Rightarrow> body" where
  "abc f = (if f = 0 then Body [] (Inr (String ''a''))
            else if f = 1 then Body [] (Inl (String ''e''))
            else Body [] (Inr (String ''b'')))"

text \<open>A new emitter after \<^verbatim>\<open>on('message', f)\<close> for the functions 0, 1 and 2.\<close>

definition abc_emitter :: emitter where
  "abc_emitter =
     (case on_each (run abc 1) empty_emitter (String ''message'') [(0, None), (1, None), (2, None)] of
        Some (em, _) \<Rightarrow> em
      | None \<Rightarrow> empty_emitter)"

text \<open>A listener that empties the array of \<^verbatim>\<open>message\<close> and pushes a new record onto it,
  and returns its own number together with the arguments it got. Another that only
  pushes a new record onto that array.\<close>

definition meddle :: invoke where
  "meddle f results args em =
     (case events em (String ''message'') of
        None \<Rightarrow> Some (em, Inr (Array (Number (Finite (of_nat f)) # args)))
      | Some a \<Rightarrow>
          Some (insert_record a 9 None (em\<lparr>arrays := (arrays em)(a := [])\<rparr>),
                Inr (Array (Number (Finite (of_nat f)) # args))))"


text \<open>A listener that stores a copy of the array of \<^verbatim>\<open>message\<close> in the Map, in place of
  that array (\<^verbatim>\<open>m.set('message', m.get('message').slice())\<close> for the Map \<open>m\<close> that
  \<^verbatim>\<open>this.emitter.events()\<close> returns).\<close>

definition rebind :: invoke where
  "rebind f results args em =
     (case events em (String ''message'') of
        None \<Rightarrow> Some (em, Inr Undefined)
      | Some a \<Rightarrow>
          Some (em\<lparr>events := (events em)(String ''message'' \<mapsto> fresh_array em),
                   arrays := (arrays em)(fresh_array em := arrays em a),
                   fresh_array := Suc (fresh_array em)\<rparr>,
                Inr Undefined))"


text \<open>\<^verbatim>\<open>new EventEmitter('message')\<close>.\<close>

definition message_only :: emitter where
  "message_only =
     empty_emitter\<lparr>validEvents := [String ''newListener'', String ''removeListener'', String ''message'']\<rparr>"


text \<open>A new emitter after \<^verbatim>\<open>on('message', f)\<close> for the function 0 and
  \<^verbatim>\<open>addListener('message', g, {count: 0})\<close> for the function 1.\<close>

definition mixed_emitter :: emitter where
  "mixed_emitter =
     (case on (run abc 1) empty_emitter (String ''message'') (Function 0) None of
        Some (em, _) \<Rightarrow>
          (case addListener (run abc 1) em (String ''message'') (Function 1)
                  (Some (Options (Some (Finite 0)) False)) of
             Some (em', _) \<Rightarrow> em'
           | None \<Rightarrow> empty_emitter)
      | None \<Rightarrow> empty_emitter)"

text \<open>
  A listener of \<^verbatim>\<open>removeListener\<close> that removes a listener itself: function 2 calls
  \<^verbatim>\<open>removeListener('y', g)\<close> for the function \<open>g = 0\<close>; every other function only returns.
  The script registers \<open>g\<close> for \<^verbatim>\<open>y\<close> and \<open>h = 1\<close> for \<^verbatim>\<open>z\<close> with \<^verbatim>\<open>on\<close>, then function 2
  and function 3 for \<^verbatim>\<open>removeListener\<close> with \<^verbatim>\<open>once\<close>, and calls \<^verbatim>\<open>removeListener('z', h)\<close>.
\<close>

definition reentrant :: "nat \<Rightarrow> body" where
  "reentrant f =
     (if f = 2 then Body [RemoveListener (String ''y'') (Value (Function 0))] (Inr Undefined)
      else Body [] (Inr Undefined))"

definition reentrant_script :: "stmt list" where
  "reentrant_script =
     [On (String ''y'') (Function 0) None,
      On (String ''z'') (Function 1) None,
      Once (String ''removeListener'') (Function 2) None,
      Once (String ''removeListener'') (Function 3) None,
      RemoveListener (String ''z'') (Value (Function 1))]"




text \<open>Asynchronous listeners: function \<open>f\<close> returns the promise \<open>f\<close>. A new emitter with
  the functions 0 and 1 registered for \<^verbatim>\<open>message\<close>, and the promise that
  \<^verbatim>\<open>emit2('message')\<close> returns on it.\<close>

definition promising :: "nat \<Rightarrow> body" where
  "promising f = Body [] (Inr (Promise f))"

definition two_emitter :: emitter where
  "two_emitter =
     (case on_each (run promising (Suc 0)) empty_emitter (String ''message'') [(0, None), (1, None)] of
        Some (em, _) \<Rightarrow> em
      | None \<Rightarrow> empty_emitter)"

definition promised :: handle where
  "promised =
     (case emit2 (run promising (Suc 0)) two_emitter (String ''message'') Undefined OnUndefined of
        Some (em, Inr h) \<Rightarrow> h
      | _ \<Rightarrow> \<lparr>entries = [], waiting = [], directive = OnUndefined, outcome = Pending\<rparr>)"

text \<open>A promise of \<^verbatim>\<open>emit2\<close> that is fulfilled waits for nothing, and its value is the
  array.\<close>

definition faithful :: "handle \<Rightarrow> bool" where
  "faithful h \<longleftrightarrow> (\<forall>rs. outcome h = Fulfilled rs \<longrightarrow> waiting h = [] \<and> rs = entries h)"

section \<open>The loop of emit\<close>

lemma quietD:
  "quiet call \<Longrightarrow> call f results args em = Some (em', r) \<Longrightarrow> trace em' = trace em"
  unfolding quiet_def by blast

lemma trace_expire [simp]: "trace (expire a l em) = trace em"
  by (simp add: expire_def Let_def)

lemma fresh_expire [simp]: "fresh (expire a l em) = fresh em"
  by (simp add: expire_def Let_def)

lemma events_expire [simp]: "events (expire a l em) = events em"
  by (simp add: expire_def Let_def)

lemma validEvents_expire [simp]: "validEvents (expire a l em) = validEvents em"
  by (simp add: expire_def Let_def)

lemma callback_expire [simp]: "callback (heap (expire a l em) x) = callback (heap em x)"
  by (simp add: expire_def Let_def)

lemma arrays_expire:
  "arrays (expire a l em) b =
     (if b = a \<and> less_than_one (decrement (count (heap em l)))
      then remove1 l (arrays em a) else arrays em b)"
  by (auto simp: expire_def Let_def remove1_idem)

lemma emit_loop_append:
  "emit_loop call a args onErr (xs @ ys) em rs =
     (case emit_loop call a args onErr xs em rs of
        None \<Rightarrow> None
      | Some (em1, Inl thrown) \<Rightarrow> Some (em1, Inl thrown)
      | Some (em1, Inr rs1) \<Rightarrow> emit_loop call a args onErr ys em1 rs1)"
proof (induction xs arbitrary: em rs)
  case Nil
  show ?case by simp
next
  case (Cons x xs)
  show ?case
    by (simp add: Cons.IH Let_def split: option.split prod.split sum.split)
qed

lemma emit_loop_trace:
  assumes "quiet call"
  shows "emit_loop call a args onErr xs em rs = Some (em', Inr rs') \<Longrightarrow> trace em' = trace em @ xs"
proof (induction xs arbitrary: em rs)
  case Nil
  then show ?case by simp
next
  case (Cons x xs)
  let ?em2 = "(expire a x em)\<lparr>trace := trace (expire a x em) @ [x]\<rparr>"
  from Cons.prems obtain em3 out where c: "call (callback (heap ?em2 x)) rs args ?em2 = Some (em3, out)"
    by (auto simp: Let_def split: option.splits)
  from quietD [OF assms c] have t: "trace em3 = trace em @ [x]" by simp
  from Cons.prems c obtain rs1 where "emit_loop call a args onErr xs em3 rs1 = Some (em', Inr rs')"
    by (auto simp: Let_def split: sum.splits)
  from Cons.IH [OF this] t show ?case by simp
qed

lemma emit_loop_trace_prefix:
  assumes "quiet call"
  shows "emit_loop call a args onErr xs em rs = Some (em', r) \<Longrightarrow> \<exists>k. trace em' = trace em @ take k xs"
proof (induction xs arbitrary: em rs)
  case Nil
  then show ?case by simp
next
  case (Cons x xs)
  let ?em2 = "(expire a x em)\<lparr>trace := trace (expire a x em) @ [x]\<rparr>"
  from Cons.prems obtain em3 out where c: "call (callback (heap ?em2 x)) rs args ?em2 = Some (em3, out)"
    by (auto simp: Let_def split: option.splits)
  from quietD [OF assms c] have t: "trace em3 = trace em @ [x]" by simp
  from Cons.prems c consider "em' = em3" | rs1 where "emit_loop call a args onErr xs em3 rs1 = Some (em', r)"
    by (auto simp: Let_def split: sum.splits)
  then show ?case
  proof cases
    case 1
    with t have "trace em' = trace em @ take 1 (x # xs)" by simp
    then show ?thesis by blast
  next
    case 2
    from Cons.IH [OF this] obtain k where "trace em' = trace em3 @ take k xs" by blast
    with t have "trace em' = trace em @ take (Suc k) (x # xs)" by simp
    then show ?thesis by blast
  qed
qed

text \<open>Listeners that answer with \<open>ret\<close>: the loop calls every record of the copy, in the
  order of the copy, and returns what the calls returned.\<close>

lemma answers_quiet: "answers call ret \<Longrightarrow> quiet call"
  unfolding answers_def quiet_def by (metis option.inject prod.inject)

lemma emit_loop_answers:
  assumes "answers call ret"
  shows "\<forall>l\<in>set xs. l < fresh em \<Longrightarrow>
     \<exists>em'. emit_loop call a args onErr xs em rs
             = Some (em', Inr (rs @ map (\<lambda>l. ret (callback (heap em l)) args) xs))
        \<and> trace em' = trace em @ xs"
proof (induction xs arbitrary: em rs)
  case Nil
  show ?case by simp
next
  case (Cons x xs)
  let ?em2 = "(expire a x em)\<lparr>trace := trace (expire a x em) @ [x]\<rparr>"
  from assms obtain em3 where c: "call (callback (heap ?em2 x)) rs args ?em2
        = Some (em3, Inr (ret (callback (heap ?em2 x)) args))"
    and t: "trace em3 = trace ?em2" and f: "fresh ?em2 \<le> fresh em3"
    and k: "\<forall>l. l < fresh ?em2 \<longrightarrow> callback (heap em3 l) = callback (heap ?em2 l)"
    unfolding answers_def by blast
  from Cons.prems f have "\<forall>l\<in>set xs. l < fresh em3" by auto
  from Cons.IH [OF this, of "rs @ [ret (callback (heap ?em2 x)) args]"]
  obtain em' where e: "emit_loop call a args onErr xs em3 (rs @ [ret (callback (heap ?em2 x)) args])
        = Some (em', Inr ((rs @ [ret (callback (heap ?em2 x)) args])
                          @ map (\<lambda>l. ret (callback (heap em3 l)) args) xs))"
    and t': "trace em' = trace em3 @ xs" by blast
  from Cons.prems k have "map (\<lambda>l. ret (callback (heap em3 l)) args) xs
                        = map (\<lambda>l. ret (callback (heap em l)) args) xs"
    by simp
  with c e t t' show ?case by (simp add: Let_def)
qed

section \<open>The error policy\<close>

text \<open>
  C3. \<^verbatim>\<open>handleError\<close>, directive by directive, for every array, error and optional index.
  With \<^verbatim>\<open>null\<close> the error is dropped, and with an index the slot at the index is taken
  out of the array. With \<^verbatim>\<open>false\<close> the error itself is stored at the index, or appended
  when there is none. With a handler that returns \<open>v\<close> for the error, \<open>v\<close> is stored at
  the index or appended when it is not \<^verbatim>\<open>undefined\<close>; when it is \<^verbatim>\<open>undefined\<close> the slot is
  taken out (with an index) and nothing is appended (without). Storing at an index
  puts the value there, and inside the array it changes no other slot.
\<close>

theorem handleError_table:
  "handleError results error OnNull index =
     Inr (case index of None \<Rightarrow> results | Some i \<Rightarrow> take i results @ drop (Suc i) results)
   \<and> handleError results error OnFalse index =
     Inr (case index of None \<Rightarrow> results @ [error] | Some i \<Rightarrow> store results i error)
   \<and> (\<forall>h v. h error = Inr v \<longrightarrow>
        handleError results error (OnFunction h) index =
          Inr (if v \<noteq> Undefined
               then (case index of None \<Rightarrow> results @ [v] | Some i \<Rightarrow> store results i v)
               else (case index of None \<Rightarrow> results
                     | Some i \<Rightarrow> take i results @ drop (Suc i) results)))
   \<and> (\<forall>i v. store results i v ! i = v \<and> (i < length results \<longrightarrow> store results i v = results[i := v]))"
  by (cases index) (simp_all add: drop_slot_def setval_def splice1_def store_def nth_append)

theorem handleError_table_witness:
  "handleError [String ''a'', Promise 0, String ''b''] (String ''e'') OnNull (Some 1)
     = Inr [String ''a'', String ''b'']
   \<and> handleError [String ''a'', Promise 0, String ''b''] (String ''e'') OnFalse (Some 1)
     = Inr [String ''a'', String ''e'', String ''b'']
   \<and> handleError [String ''a'', Promise 0, String ''b''] (String ''e'')
        (OnFunction (\<lambda>x. Inr (Array [x]))) (Some 1)
     = Inr [String ''a'', Array [String ''e''], String ''b'']
   \<and> handleError [String ''a'', Promise 0, String ''b''] (String ''e'')
        (OnFunction (\<lambda>x. Inr Undefined)) (Some 1)
     = Inr [String ''a'', String ''b'']"
  using handleError_table [of "[String ''a'', Promise 0, String ''b'']" "String ''e''" "Some 1"]
  by (simp add: store_def setval_def drop_slot_def splice1_def)

section \<open>setMaxListeners\<close>

text \<open>
  C9, as the code has it. \<^verbatim>\<open>setMaxListeners(count)\<close> stores the count and succeeds for
  \<^verbatim>\<open>Infinity\<close> and for every finite number that is at least 1, whole or not; for a value
  that is not a number and for a number below 1 it throws the error
  \<^verbatim>\<open>Invalid count\<close>. (\<^verbatim>\<open>NaN\<close> is left out of the statement.)
\<close>

theorem setMaxListeners_accepts:
  "(\<forall>n. c = Number n \<and> (n = PosInfinity \<or> (\<exists>q. n = Finite q \<and> 1 \<le> q)) \<longrightarrow>
       setMaxListeners em c = Inr (em\<lparr>maxListeners := n\<rparr>))
   \<and> (c \<noteq> Number NaN \<and> c \<noteq> Number PosInfinity \<and> (\<forall>q. c = Number (Finite q) \<longrightarrow> q < 1) \<longrightarrow>
       setMaxListeners em c = Inl (EventEmitterError ''Invalid count: %s'' [c]))"
proof (cases c)
  case (Number n)
  then show ?thesis by (cases n) (auto simp: setMaxListeners_def)
qed (auto simp: setMaxListeners_def)

theorem setMaxListeners_accepts_witness:
  "setMaxListeners empty_emitter (Number (Finite 20)) = Inr (empty_emitter\<lparr>maxListeners := Finite 20\<rparr>)
   \<and> setMaxListeners empty_emitter (Number (Finite 0))
     = Inl (EventEmitterError ''Invalid count: %s'' [Number (Finite 0)])
   \<and> setMaxListeners empty_emitter (String ''5'')
     = Inl (EventEmitterError ''Invalid count: %s'' [String ''5''])"
  using setMaxListeners_accepts [of "Number (Finite 20)" empty_emitter]
    setMaxListeners_accepts [of "Number (Finite 0)" empty_emitter]
    setMaxListeners_accepts [of "String ''5''" empty_emitter]
  by simp

text \<open>The count \<open>3/2\<close> is accepted, and it is neither a whole number nor \<^verbatim>\<open>Infinity\<close>.\<close>

theorem setMaxListeners_counterexample:
  "setMaxListeners empty_emitter (Number (Finite (3/2)))
     = Inr (empty_emitter\<lparr>maxListeners := Finite (3/2)\<rparr>)
   \<and> (3/2 :: rat) \<notin> \<int>"
  by (simp add: setMaxListeners_def)

section \<open>An event without listeners\<close>

text \<open>
  C1. On a new emitter, \<^verbatim>\<open>emit\<close> of any event, which has no listener, returns the empty
  array \<^verbatim>\<open>[]\<close> (and leaves the empty array it created for the event in the Map), where
  the documentation of \<^verbatim>\<open>emit\<close> says \<^verbatim>\<open>null\<close>.
\<close>

theorem emit_no_listeners:
  "emit call empty_emitter event args onErr =
     Some (empty_emitter\<lparr>events := (events empty_emitter)(event \<mapsto> 0),
                          arrays := (arrays empty_emitter)(0 := []),
                          fresh_array := Suc 0\<rparr>, Inr [])"
  by (simp add: emit_def listeners_def empty_emitter_def)

section \<open>Facts about the methods\<close>

lemma listeners_Inr:
  assumes "listeners em event = Inr (em1, a)"
  shows "trace em1 = trace em" and "heap em1 = heap em" and "validEvents em1 = validEvents em"
    and "fresh em1 = fresh em" and "events em1 event = Some a" and "arrays em1 a = live em event"
    and "live em1 event = live em event" and "listeners em1 event = Inr (em1, a)"
    and "\<forall>e. e \<noteq> event \<longrightarrow> events em1 e = events em e"
  using assms by (auto simp: listeners_def live_def split: if_splits option.splits)

lemma allocatedD: "allocated em \<Longrightarrow> events em e = Some a \<Longrightarrow> a < fresh_array em"
  unfolding allocated_def by blast

lemma listeners_allocated:
  assumes "listeners em event = Inr (em1, a)" and "allocated em"
  shows "allocated em1" and "a < fresh_array em1" and "\<forall>e. live em1 e = live em e"
    and "e \<noteq> e' \<longrightarrow> apart em e e' \<longrightarrow> apart em1 e e'"
proof -
  show "allocated em1" and "a < fresh_array em1"
    using assms
    by (auto simp: listeners_def allocated_def less_Suc_eq split: if_splits option.splits)
  show "\<forall>e. live em1 e = live em e"
    using assms
    by (auto simp: listeners_def live_def split: if_splits option.splits dest: allocatedD)
  show "e \<noteq> e' \<longrightarrow> apart em e e' \<longrightarrow> apart em1 e e'"
    using assms
    by (auto simp: listeners_def apart_def split: if_splits option.splits dest: allocatedD)
qed

lemma listeners_valid:
  "validEvents em = [] \<or> event \<in> set (validEvents em) \<Longrightarrow> \<exists>em1 a. listeners em event = Inr (em1, a)"
  by (auto simp: listeners_def split: option.splits)

lemma emit_empty:
  "validEvents em = [] \<or> event \<in> set (validEvents em) \<Longrightarrow> live em event = [] \<Longrightarrow>
   \<exists>em' a. listeners em event = Inr (em', a) \<and> emit call em event args onErr = Some (em', Inr [])"
proof -
  assume v: "validEvents em = [] \<or> event \<in> set (validEvents em)" and l: "live em event = []"
  from listeners_valid [OF v] obtain em' a where h: "listeners em event = Inr (em', a)" by blast
  from listeners_Inr(6) [OF h] l have "arrays em' a = []" by simp
  with h show ?thesis by (simp add: emit_def)
qed

lemma emit_trace:
  assumes "quiet call" and "emit call em event args onErr = Some (em', Inr rs)"
  shows "trace em' = trace em @ live em event"
proof -
  from assms(2) obtain em1 a where l: "listeners em event = Inr (em1, a)"
    and e: "emit_loop call a (arguments args) onErr (arrays em1 a) em1 [] = Some (em', Inr rs)"
    by (auto simp: emit_def split: sum.splits)
  from emit_loop_trace [OF assms(1) e] listeners_Inr [OF l] show ?thesis by simp
qed

lemma emit_trace_prefix:
  assumes "quiet call" and "emit call em event args onErr = Some (em', r)"
  shows "\<exists>k. trace em' = trace em @ take k (live em event)"
proof (cases "listeners em event")
  case (Inl thrown)
  with assms(2) have "trace em' = trace em @ take 0 (live em event)" by (simp add: emit_def)
  then show ?thesis by blast
next
  case (Inr p)
  obtain em1 a where p: "p = (em1, a)" by (cases p)
  with Inr assms(2) have "emit_loop call a (arguments args) onErr (arrays em1 a) em1 [] = Some (em', r)"
    by (simp add: emit_def)
  from emit_loop_trace_prefix [OF assms(1) this] listeners_Inr [OF Inr [unfolded p]] show ?thesis by simp
qed

lemma emit_answers:
  assumes "answers call ret"
    and "validEvents em = [] \<or> event \<in> set (validEvents em)"
    and "\<forall>l\<in>set (live em event). l < fresh em"
  shows "\<exists>em'. emit call em event args onErr
             = Some (em', Inr (map (\<lambda>l. ret (callback (heap em l)) (arguments args)) (live em event)))
        \<and> trace em' = trace em @ live em event"
proof -
  from listeners_valid [OF assms(2)] obtain em1 a where h: "listeners em event = Inr (em1, a)" by blast
  note f = listeners_Inr [OF h]
  from assms(3) f have "\<forall>l\<in>set (arrays em1 a). l < fresh em1" by simp
  from emit_loop_answers [OF assms(1) this, of a "arguments args" onErr "[]"] h f
  show ?thesis by (simp add: emit_def)
qed

lemma insert_record_fields:
  "trace (insert_record a f opts em) = trace em"
  "fresh (insert_record a f opts em) = Suc (fresh em)"
  "validEvents (insert_record a f opts em) = validEvents em"
  "events (insert_record a f opts em) = events em"
  "fresh_array (insert_record a f opts em) = fresh_array em"
  "heap (insert_record a f opts em) = (heap em)(fresh em := \<lparr>callback = f, count = registered_count opts\<rparr>)"
  "arrays (insert_record a f opts em) =
     (arrays em)(a := (if prepends opts then fresh em # arrays em a else arrays em a @ [fresh em]))"
  by (simp_all add: insert_record_def Let_def)

lemma warn_leak_fields:
  "trace (warn_leak event a em) = trace em"
  "fresh (warn_leak event a em) = fresh em"
  "validEvents (warn_leak event a em) = validEvents em"
  "events (warn_leak event a em) = events em"
  "fresh_array (warn_leak event a em) = fresh_array em"
  "heap (warn_leak event a em) = heap em"
  "arrays (warn_leak event a em) = arrays em"
  by (simp_all add: warn_leak_def)

text \<open>Registering one function while \<^verbatim>\<open>newListener\<close> has no listener and an array of its
  own: no listener is called, and the new record goes to the end of the array of the
  event, or to its front.\<close>

lemma addListener_single:
  assumes v: "validEvents em = [] \<or> (event \<in> set (validEvents em) \<and> String ''newListener'' \<in> set (validEvents em))"
    and n: "live em (String ''newListener'') = []"
    and d: "event \<noteq> String ''newListener''"
    and al: "allocated em"
    and ap: "apart em event (String ''newListener'')"
  shows "\<exists>em'. addListener call em event (Function f) opts = Some (em', Inr ())
      \<and> live em' event = (if prepends opts then fresh em # live em event else live em event @ [fresh em])
      \<and> live em' (String ''newListener'') = []
      \<and> allocated em' \<and> apart em' event (String ''newListener'') \<and> events em' event \<noteq> None
      \<and> heap em' = (heap em)(fresh em := \<lparr>callback = f, count = registered_count opts\<rparr>)
      \<and> fresh em' = Suc (fresh em) \<and> trace em' = trace em \<and> validEvents em' = validEvents em"
proof -
  let ?nl = "String ''newListener''"
  from v listeners_valid [of em event] obtain em1 a where l1: "listeners em event = Inr (em1, a)" by blast
  note f1 = listeners_Inr [OF l1] and g1 = listeners_allocated [OF l1 al]
  from g1(4) [of event ?nl] ap d have ap1: "apart em1 event ?nl" by blast
  from v f1(3) have v1: "validEvents em1 = [] \<or> ?nl \<in> set (validEvents em1)" by auto
  from n g1(3) have n1: "live em1 ?nl = []" by simp
  from emit_empty [OF v1 n1, of call "Array [event, Function f, options_val opts]" OnUndefined]
  obtain em2 b where l2: "listeners em1 ?nl = Inr (em2, b)"
    and e: "emit call em1 ?nl (Array [event, Function f, options_val opts]) OnUndefined = Some (em2, Inr [])"
    by blast
  note f2 = listeners_Inr [OF l2] and g2 = listeners_allocated [OF l2 g1(1)]
  from g2(4) [of event ?nl] ap1 d have ap2: "apart em2 event ?nl" by blast
  from f1(5) f2(9) d have ev2: "events em2 event = Some a" by simp
  with ap2 f2(5) have ab: "a \<noteq> b" by (auto simp: apart_def)
  from g2(3) have "live em2 event = live em1 event" by blast
  moreover from ev2 have "live em2 event = arrays em2 a" by (simp add: live_def)
  ultimately have a2: "arrays em2 a = live em event" using f1(7) by simp
  from f2(6) n1 have b2: "arrays em2 b = []" by simp
  let ?em' = "warn_leak event a (insert_record a f opts em2)"
  from l1 e have "addListener call em event (Function f) opts = Some (?em', Inr ())"
    by (simp add: addListener_def)
  moreover from ev2 a2 f1(4) f2(4) have "live ?em' event = (if prepends opts
                           then fresh em # live em event else live em event @ [fresh em])"
    by (simp add: live_def warn_leak_fields insert_record_fields)
  moreover from f2(5) ab b2 have "live ?em' ?nl = []"
    by (simp add: live_def warn_leak_fields insert_record_fields)
  moreover from g2(1) have "allocated ?em'"
    by (simp add: allocated_def warn_leak_fields insert_record_fields)
  moreover from ap2 have "apart ?em' event ?nl"
    by (simp add: apart_def warn_leak_fields insert_record_fields)
  moreover from ev2 have "events ?em' event \<noteq> None"
    by (simp add: warn_leak_fields insert_record_fields)
  moreover from f1(1-4) f2(1-4)
  have "heap ?em' = (heap em)(fresh em := \<lparr>callback = f, count = registered_count opts\<rparr>)"
    "fresh ?em' = Suc (fresh em)" "trace ?em' = trace em" "validEvents ?em' = validEvents em"
    by (simp_all add: warn_leak_fields insert_record_fields)
  ultimately show ?thesis by blast
qed

section \<open>The store stays well formed\<close>

text \<open>A new emitter has a well-formed store, and every method keeps it so, as long as
  the listeners do; listeners that only call the methods do.\<close>

lemma wellformed_fields:
  "events em' = events em \<Longrightarrow> fresh_array em' = fresh_array em \<Longrightarrow> wellformed em' = wellformed em"
  by (simp add: wellformed_def allocated_def apart_def)

lemma wellformedD: "wellformed em \<Longrightarrow> allocated em" "wellformed em \<Longrightarrow> e \<noteq> e' \<Longrightarrow> apart em e e'"
  by (simp_all add: wellformed_def)

lemma orderlyD: "orderly call \<Longrightarrow> call f results args em = Some (em', r) \<Longrightarrow> wellformed em \<Longrightarrow> wellformed em'"
  unfolding orderly_def by blast

lemma wellformed_empty: "wellformed empty_emitter"
  by (simp add: wellformed_def allocated_def apart_def empty_emitter_def)

lemma wellformed_listeners:
  assumes "listeners em event = Inr (em1, a)" and "wellformed em"
  shows "wellformed em1"
  using listeners_allocated [OF assms(1) wellformedD(1) [OF assms(2)]] wellformedD(2) [OF assms(2)]
  by (simp add: wellformed_def)

lemma wellformed_expire: "wellformed (expire a l em) = wellformed em"
  by (rule wellformed_fields) (simp_all add: expire_def Let_def)

lemma wellformed_insert_record: "wellformed (insert_record a f opts em) = wellformed em"
  by (rule wellformed_fields) (simp_all add: insert_record_fields)

lemma wellformed_warn_leak: "wellformed (warn_leak event a em) = wellformed em"
  by (rule wellformed_fields) (simp_all add: warn_leak_fields)

lemma emit_loop_wellformed:
  assumes o: "orderly call"
  shows "emit_loop call a args onErr xs em rs = Some (em', r) \<Longrightarrow> wellformed em \<Longrightarrow> wellformed em'"
proof (induction xs arbitrary: em rs)
  case Nil
  then show ?case by simp
next
  case (Cons x xs)
  let ?em2 = "(expire a x em)\<lparr>trace := trace (expire a x em) @ [x]\<rparr>"
  have "wellformed ?em2 = wellformed (expire a x em)" by (rule wellformed_fields) simp_all
  with Cons.prems(2) have w2: "wellformed ?em2" by (simp add: wellformed_expire)
  from Cons.prems(1) obtain em3 out where c: "call (callback (heap ?em2 x)) rs args ?em2 = Some (em3, out)"
    by (auto simp: Let_def split: option.splits)
  from orderlyD [OF o c w2] have w3: "wellformed em3" .
  from Cons.prems(1) c
  have "em' = em3 \<or> (\<exists>rs1. emit_loop call a args onErr xs em3 rs1 = Some (em', r))"
    by (auto simp: Let_def split: sum.splits)
  with w3 Cons.IH show ?case by blast
qed

lemma emit_wellformed:
  assumes "orderly call" and "emit call em event args onErr = Some (em', r)" and "wellformed em"
  shows "wellformed em'"
proof (cases "listeners em event")
  case (Inl thrown)
  with assms(2,3) show ?thesis by (simp add: emit_def)
next
  case (Inr p)
  then obtain em1 a where l: "listeners em event = Inr (em1, a)" by (cases p) simp
  with assms(2) have "emit_loop call a (arguments args) onErr (arrays em1 a) em1 [] = Some (em', r)"
    by (simp add: emit_def)
  from emit_loop_wellformed [OF assms(1) this wellformed_listeners [OF l assms(3)]] show ?thesis .
qed

lemma addListener_each_wellformed:
  assumes o: "orderly call"
  shows "addListener_each call event a opts index xs em = Some (em', r) \<Longrightarrow> wellformed em \<Longrightarrow> wellformed em'"
proof (induction xs arbitrary: em index)
  case Nil
  then show ?case by simp
next
  case (Cons x xs)
  show ?case
  proof (cases "\<exists>f. x = Function f")
    case False
    with Cons.prems show ?thesis by (cases x) simp_all
  next
    case True
    then obtain f where x: "x = Function f" by blast
    let ?e = "emit call em (String ''newListener'') (Array [event, x, options_val opts]) OnUndefined"
    from Cons.prems(1) x obtain em1 out where e: "?e = Some (em1, out)"
      by (auto split: option.splits)
    from emit_wellformed [OF o e Cons.prems(2)] have w1: "wellformed em1" .
    show ?thesis
    proof (cases out)
      case (Inl thrown)
      with Cons.prems(1) x e w1 show ?thesis by simp
    next
      case (Inr rs)
      with Cons.prems(1) x e
      have "addListener_each call event a opts (Suc index) xs (insert_record a f opts em1) = Some (em', r)"
        by simp
      from Cons.IH [OF this] w1 show ?thesis by (simp add: wellformed_insert_record)
    qed
  qed
qed

lemma addListener_wellformed:
  assumes "orderly call" and "addListener call em event listener opts = Some (em', r)" and "wellformed em"
  shows "wellformed em'"
proof (cases "listeners em event")
  case (Inl thrown)
  with assms(2,3) show ?thesis by (simp add: addListener_def)
next
  case (Inr p)
  then obtain em1 a where l: "listeners em event = Inr (em1, a)" by (cases p) simp
  with assms(2) obtain em2 out where e: "addListener_each call event a opts 0 (as_array listener) em1 = Some (em2, out)"
    and "em' = em2 \<or> em' = warn_leak event a em2"
    by (auto simp: addListener_def split: option.splits sum.splits)
  with addListener_each_wellformed [OF assms(1) e wellformed_listeners [OF l assms(3)]]
  show ?thesis by (auto simp: wellformed_warn_leak)
qed

lemma removeListener_each_wellformed:
  assumes o: "orderly call"
  shows "removeListener_each call event a index xs em = Some (em', r) \<Longrightarrow> wellformed em \<Longrightarrow> wellformed em'"
proof (induction xs arbitrary: em index)
  case Nil
  then show ?case by simp
next
  case (Cons x xs)
  show ?case
  proof (cases "callback_of em x")
    case None
    with Cons.prems show ?thesis by simp
  next
    case (Some f)
    show ?thesis
    proof (cases "findIndex (\<lambda>l. callback (heap em l) = f) (arrays em a)")
      case None
      with Cons.prems Some Cons.IH [of "Suc index" em] show ?thesis by simp
    next
      case (Some pos) note p = this
      let ?em1 = "em\<lparr>arrays := (arrays em)(a := splice1 (arrays em a) pos)\<rparr>"
      have "wellformed ?em1 = wellformed em" by (rule wellformed_fields) simp_all
      with Cons.prems(2) have w1: "wellformed ?em1" by simp
      from Cons.prems(1) \<open>callback_of em x = Some f\<close> p
      obtain em2 out where e: "emit call ?em1 (String ''removeListener'') (Array [event, Function f]) OnUndefined = Some (em2, out)"
        by (auto split: option.splits)
      from emit_wellformed [OF o e w1] have w2: "wellformed em2" .
      show ?thesis
      proof (cases out)
        case (Inl thrown)
        with Cons.prems(1) \<open>callback_of em x = Some f\<close> p e w2 show ?thesis by simp
      next
        case (Inr rs)
        with Cons.prems(1) \<open>callback_of em x = Some f\<close> p e
        have "removeListener_each call event a (Suc index) xs em2 = Some (em', r)" by simp
        from Cons.IH [OF this w2] show ?thesis .
      qed
    qed
  qed
qed

lemma removeListener_wellformed:
  assumes "orderly call" and "removeListener call em event listener = Some (em', r)" and "wellformed em"
  shows "wellformed em'"
proof (cases "listeners em event")
  case (Inl thrown)
  with assms(2,3) show ?thesis by (simp add: removeListener_def)
next
  case (Inr p)
  then obtain em1 a where l: "listeners em event = Inr (em1, a)" by (cases p) simp
  with assms(2) removeListener_each_wellformed [OF assms(1) _ wellformed_listeners [OF l assms(3)]]
  show ?thesis by (simp add: removeListener_def)
qed

lemma exec_stmt_wellformed:
  assumes "orderly call" and "exec_stmt call s em = Some (em', r)" and "wellformed em"
  shows "wellformed em'"
proof (cases s)
  case (AddListener event listener opts)
  with assms addListener_wellformed [OF assms(1) _ assms(3)] show ?thesis by simp
next
  case (On event listener opts)
  with assms addListener_wellformed [OF assms(1) _ assms(3)] show ?thesis by (simp add: on_def)
next
  case (Once event listener opts)
  with assms addListener_wellformed [OF assms(1) _ assms(3)] show ?thesis by (simp add: once_def)
next
  case (RemoveListener event listener)
  with assms removeListener_wellformed [OF assms(1) _ assms(3)] show ?thesis by simp
next
  case (Emit event args onErr)
  with assms(2) obtain out where "emit call em event args onErr = Some (em', out)"
    by (auto split: option.splits sum.splits)
  from emit_wellformed [OF assms(1) this assms(3)] show ?thesis .
qed

lemma exec_body_wellformed:
  assumes o: "orderly call"
  shows "exec_body call ss fin em = Some (em', r) \<Longrightarrow> wellformed em \<Longrightarrow> wellformed em'"
proof (induction ss arbitrary: em)
  case Nil
  then show ?case by simp
next
  case (Cons s ss)
  from Cons.prems(1) obtain em1 out where e: "exec_stmt call s em = Some (em1, out)"
    by (auto split: option.splits)
  from exec_stmt_wellformed [OF o e Cons.prems(2)] have w1: "wellformed em1" .
  show ?case
  proof (cases out)
    case (Inl thrown)
    with Cons.prems(1) e w1 show ?thesis by simp
  next
    case (Inr u)
    with Cons.prems(1) e have "exec_body call ss fin em1 = Some (em', r)" by simp
    from Cons.IH [OF this w1] show ?thesis .
  qed
qed

lemma orderly_run: "orderly (run bodies depth)"
proof (induction depth)
  case 0
  show ?case by (simp add: orderly_def)
next
  case (Suc depth)
  show ?case
    unfolding orderly_def
  proof (intro allI impI, elim conjE)
    fix f results args em em' r
    assume "run bodies (Suc depth) f results args em = Some (em', r)" and w: "wellformed em"
    then have "exec_body (run bodies depth) (stmts (bodies f)) (completion (bodies f)) em = Some (em', r)"
      by simp
    from exec_body_wellformed [OF Suc this w] show "wellformed em'" .
  qed
qed

section \<open>A listener that throws, with no directive\<close>

text \<open>
  C2. The emit of an event with \<^verbatim>\<open>onError\<close> left \<^verbatim>\<open>undefined\<close>, where the listeners before the
  record \<open>l\<close> in the copy of the array, \<open>before\<close>, all return (the loop over them ends in
  the state \<open>em1\<close> with their results \<open>collected\<close>) and the call of the listener of \<open>l\<close>
  throws \<open>error\<close>, leaving the state \<open>em2\<close>. Then \<^verbatim>\<open>emit\<close> throws that very \<open>error\<close>; what
  was collected is not returned; and the state is \<open>em2\<close>, the one the throwing listener
  left: whatever records follow \<open>l\<close> in the copy (\<open>rest\<close>), none of them is called. When
  the listeners call no listener themselves, the calls made are exactly those of
  \<open>before\<close> and of \<open>l\<close>.
\<close>

theorem emit_unset_aborts:
  assumes "listeners em event = Inr (em0, a)"
    and "live em0 event = before @ l # rest"
    and "emit_loop call a (arguments args) OnUndefined before em0 [] = Some (em1, Inr collected)"
    and "call (callback (heap em1 l)) collected (arguments args)
           ((expire a l em1)\<lparr>trace := trace em1 @ [l]\<rparr>) = Some (em2, Inl error)"
  shows "emit call em event args OnUndefined = Some (em2, Inl error)
     \<and> (quiet call \<longrightarrow> trace em2 = trace em @ before @ [l])"
proof -
  note f = listeners_Inr [OF assms(1)]
  from f assms(2) have s: "arrays em0 a = before @ l # rest" by simp
  have "emit_loop call a (arguments args) OnUndefined (l # rest) em1 collected = Some (em2, Inl error)"
    using assms(4) by (simp add: Let_def)
  with assms(1,3) s have e: "emit call em event args OnUndefined = Some (em2, Inl error)"
    by (simp add: emit_def emit_loop_append)
  have "trace em2 = trace em @ before @ [l]" if q: "quiet call"
    using emit_loop_trace [OF q assms(3)] quietD [OF q assms(4)] f(1) by simp
  with e show ?thesis by blast
qed

section \<open>removeListener\<close>





section \<open>The list of valid events\<close>

lemma add_valid_Inr: "add_valid valid index evs = Inr v \<Longrightarrow> v = valid @ evs"
proof (induction evs arbitrary: valid index)
  case Nil
  then show ?case by simp
next
  case (Cons a evs)
  then have "add_valid (valid @ [a]) (Suc index) evs = Inr v" by (simp split: if_splits)
  from Cons.IH [OF this] show ?case by simp
qed

lemma new_EventEmitter_valid:
  "new_EventEmitter evs = Inr em0 \<Longrightarrow> evs \<noteq> [] \<Longrightarrow>
     validEvents em0 = String ''newListener'' # String ''removeListener'' # evs"
  by (auto simp: new_EventEmitter_def split: sum.splits dest: add_valid_Inr)

text \<open>
  C8. An emitter made with the non-empty list \<open>evs\<close> of event names, in any later
  state \<open>em\<close> (the list of valid events is the one the constructor set). For an event
  that is not in \<open>evs\<close> and is neither \<^verbatim>\<open>newListener\<close> nor \<^verbatim>\<open>removeListener\<close>, each of
  \<^verbatim>\<open>addListener\<close>, \<^verbatim>\<open>on\<close>, \<^verbatim>\<open>once\<close>, \<^verbatim>\<open>removeListener\<close>, \<^verbatim>\<open>emit\<close> and \<^verbatim>\<open>emit2\<close> throws the
  error \<^verbatim>\<open>Invalid event name\<close> and changes nothing; the names \<^verbatim>\<open>newListener\<close> and
  \<^verbatim>\<open>removeListener\<close> pass the check of \<^verbatim>\<open>listeners\<close>.
\<close>

theorem allow_list_enforced:
  assumes "new_EventEmitter evs = Inr em0" and "evs \<noteq> []"
    and "validEvents em = validEvents em0"
    and "event \<notin> set evs"
    and "event \<noteq> String ''newListener''" and "event \<noteq> String ''removeListener''"
  shows "addListener call em event listener opts
            = Some (em, Inl (EventEmitterError ''Invalid event name: %s'' [event]))
    \<and> on call em event listener opts
            = Some (em, Inl (EventEmitterError ''Invalid event name: %s'' [event]))
    \<and> once call em event listener opts
            = Some (em, Inl (EventEmitterError ''Invalid event name: %s'' [event]))
    \<and> removeListener call em event target
            = Some (em, Inl (EventEmitterError ''Invalid event name: %s'' [event]))
    \<and> emit call em event args onErr
            = Some (em, Inl (EventEmitterError ''Invalid event name: %s'' [event]))
    \<and> emit2 call em event args onErr
            = Some (em, Inl (EventEmitterError ''Invalid event name: %s'' [event]))
    \<and> (\<exists>em' a. listeners em (String ''newListener'') = Inr (em', a))
    \<and> (\<exists>em' a. listeners em (String ''removeListener'') = Inr (em', a))"
proof -
  from new_EventEmitter_valid [OF assms(1,2)] assms(3)
  have v: "validEvents em = String ''newListener'' # String ''removeListener'' # evs" by simp
  with assms(4-6) have l: "listeners em event = Inl (EventEmitterError ''Invalid event name: %s'' [event])"
    by (simp add: listeners_def)
  from v have "\<exists>em' a. listeners em (String ''newListener'') = Inr (em', a)"
    and "\<exists>em' a. listeners em (String ''removeListener'') = Inr (em', a)"
    by (simp_all add: listeners_def split: option.split)
  with l show ?thesis
    by (simp add: addListener_def on_def once_def removeListener_def emit_def emit2_def)
qed

section \<open>A count below 1\<close>

lemma undisturbedD:
  "undisturbed call event l \<Longrightarrow> call f results args em = Some (em', r) \<Longrightarrow> l < fresh em \<Longrightarrow>
   events em event = Some a \<Longrightarrow>
     fresh em \<le> fresh em' \<and> heap em' l = heap em l \<and> events em' event = Some a
     \<and> count_list (arrays em' a) l \<le> count_list (arrays em a) l"
  unfolding undisturbed_def by blast

lemma less_than_one_decrement: "less_than_one c \<Longrightarrow> less_than_one (decrement c)"
  by (cases c) auto

lemma count_list_remove1:
  "count_list (remove1 x xs) l = (if x = l \<and> l \<in> set xs then count_list xs l - 1 else count_list xs l)"
  by (induction xs) auto

lemma count_list_0_iff: "count_list xs l = 0 \<longleftrightarrow> l \<notin> set xs"
  by (induction xs) auto

lemma count_list_one_mem: "count_list xs l = 1 \<Longrightarrow> l \<in> set xs"
  by (rule ccontr) (simp add: count_list_0_iff [symmetric])

lemma heap_expire_other: "x \<noteq> l \<Longrightarrow> heap (expire a x em) l = heap em l"
  by (simp add: expire_def Let_def)

lemma count_expire_self: "count (heap (expire a l em) l) = decrement (count (heap em l))"
  by (simp add: expire_def Let_def)

text \<open>One turn of the loop keeps the count of \<open>l\<close> such that the next decrement brings it
  below 1, and takes \<open>l\<close> out of the array when the turn is that of \<open>l\<close>.\<close>

lemma expire_step:
  assumes "less_than_one (decrement (count (heap em l)))" and "count_list (arrays em a) l \<le> 1"
  shows "less_than_one (decrement (count (heap (expire a x em) l)))
     \<and> count_list (arrays (expire a x em) a) l \<le> 1
     \<and> (count_list (arrays em a) l = 0 \<or> x = l \<longrightarrow> count_list (arrays (expire a x em) a) l = 0)"
proof (cases "x = l")
  case True
  with assms show ?thesis
    by (auto simp: count_expire_self less_than_one_decrement arrays_expire count_list_remove1 count_list_0_iff)
next
  case False
  with assms show ?thesis
    by (auto simp: heap_expire_other arrays_expire count_list_remove1)
qed

lemma emit_loop_expired:
  assumes u: "undisturbed call event l"
  shows "emit_loop call a args onErr xs em rs = Some (em', r) \<Longrightarrow>
     l < fresh em \<Longrightarrow> events em event = Some a \<Longrightarrow>
     less_than_one (decrement (count (heap em l))) \<Longrightarrow> count_list (arrays em a) l \<le> 1 \<Longrightarrow>
     events em' event = Some a
     \<and> (count_list (arrays em a) l = 0 \<or> (l \<in> set xs \<and> (\<exists>rs'. r = Inr rs')) \<longrightarrow>
          count_list (arrays em' a) l = 0)"
proof (induction xs arbitrary: em rs)
  case Nil
  then show ?case by auto
next
  case (Cons x xs)
  let ?em1 = "expire a x em"
  let ?em2 = "?em1\<lparr>trace := trace ?em1 @ [x]\<rparr>"
  from expire_step [OF Cons.prems(4,5), of x]
  have i2: "less_than_one (decrement (count (heap ?em2 l)))" "count_list (arrays ?em2 a) l \<le> 1"
    and z2: "count_list (arrays em a) l = 0 \<or> x = l \<Longrightarrow> count_list (arrays ?em2 a) l = 0"
    by simp_all
  from Cons.prems(2,3) have b2: "l < fresh ?em2" "events ?em2 event = Some a" by simp_all
  from Cons.prems(1) obtain em3 out where c: "call (callback (heap ?em2 x)) rs args ?em2 = Some (em3, out)"
    by (auto simp: Let_def split: option.splits)
  from undisturbedD [OF u c b2] i2 z2 b2
  have b3: "l < fresh em3" "events em3 event = Some a"
    and i3: "less_than_one (decrement (count (heap em3 l)))" "count_list (arrays em3 a) l \<le> 1"
    and z3: "count_list (arrays em a) l = 0 \<or> x = l \<Longrightarrow> count_list (arrays em3 a) l = 0"
    by auto
  from Cons.prems(1) c
  have "(\<exists>thrown. em' = em3 \<and> r = Inl thrown)
      \<or> (\<exists>rs1. emit_loop call a args onErr xs em3 rs1 = Some (em', r))"
    by (auto simp: Let_def split: sum.splits) metis
  then show ?case
  proof (elim disjE exE conjE)
    fix thrown
    assume "em' = em3" "r = Inl thrown"
    with b3 z3 show ?thesis by auto
  next
    fix rs1
    assume "emit_loop call a args onErr xs em3 rs1 = Some (em', r)"
    from Cons.IH [OF this b3 i3] z3 show ?thesis by auto
  qed
qed

lemma emit_expired:
  assumes "undisturbed call event l" and "emit call em event args onErr = Some (em', Inr rs)"
    and "l < fresh em"
    and "less_than_one (decrement (count (heap em l)))" and "count_list (live em event) l = 1"
  shows "l \<notin> set (live em' event)"
proof -
  from assms(2) obtain em1 a where l: "listeners em event = Inr (em1, a)"
    and e: "emit_loop call a (arguments args) onErr (arrays em1 a) em1 [] = Some (em', Inr rs)"
    by (auto simp: emit_def split: sum.splits)
  note f = listeners_Inr [OF l]
  from f assms(3-5) count_list_one_mem [OF assms(5)]
  have "l < fresh em1" "events em1 event = Some a"
    "less_than_one (decrement (count (heap em1 l)))" "count_list (arrays em1 a) l \<le> 1"
    and "l \<in> set (arrays em1 a)"
    by simp_all
  from emit_loop_expired [OF assms(1) e this(1-4)] this(5)
  show ?thesis by (auto simp: count_list_0_iff live_def)
qed

text \<open>A record registered with a count that its first decrement brings below 1 (a count
  below 1, or the count 1 of \<^verbatim>\<open>once\<close>), while \<^verbatim>\<open>newListener\<close> has no listener: an emit
  with listeners that call no listener and leave the record undisturbed calls the
  record once and takes it out of the array.\<close>

lemma registered_record_expires:
  assumes v: "validEvents em0 = [] \<or> (event \<in> set (validEvents em0) \<and> String ''newListener'' \<in> set (validEvents em0))"
    and n: "live em0 (String ''newListener'') = []"
    and d: "event \<noteq> String ''newListener''"
    and al: "allocated em0"
    and ap: "apart em0 event (String ''newListener'')"
    and w: "\<forall>l\<in>set (live em0 event). l < fresh em0"
    and c: "less_than_one (decrement (registered_count opts))"
  shows "\<exists>em. addListener call0 em0 event (Function f) opts = Some (em, Inr ())
       \<and> heap em (fresh em0) = \<lparr>callback = f, count = registered_count opts\<rparr>
       \<and> count_list (live em event) (fresh em0) = 1
       \<and> (\<forall>call args onErr em' rs.
             quiet call \<and> undisturbed call event (fresh em0)
             \<and> emit call em event args onErr = Some (em', Inr rs) \<longrightarrow>
               trace em' = trace em @ live em event \<and> fresh em0 \<notin> set (live em' event))
       \<and> (\<forall>call ret args onErr.
             answers call ret \<and> undisturbed call event (fresh em0) \<longrightarrow>
               (\<exists>em'. emit call em event args onErr
                        = Some (em', Inr (map (\<lambda>l. ret (callback (heap em l)) (arguments args))
                                             (live em event)))
                  \<and> trace em' = trace em @ live em event \<and> fresh em0 \<notin> set (live em' event)))"
proof -
  from addListener_single [OF v n d al ap, of call0 f opts]
  obtain em where a: "addListener call0 em0 event (Function f) opts = Some (em, Inr ())"
    and l: "live em event = (if prepends opts then fresh em0 # live em0 event else live em0 event @ [fresh em0])"
    and h: "heap em = (heap em0)(fresh em0 := \<lparr>callback = f, count = registered_count opts\<rparr>)"
    and fr: "fresh em = Suc (fresh em0)" and ve: "validEvents em = validEvents em0"
    by auto
  from h have h1: "heap em (fresh em0) = \<lparr>callback = f, count = registered_count opts\<rparr>" by simp
  from w have u: "fresh em0 \<notin> set (live em0 event)" by auto
  with l have c1: "count_list (live em event) (fresh em0) = 1"
    by (auto simp: count_list_0_iff)
  from l w fr have w1: "\<forall>l\<in>set (live em event). l < fresh em" by (auto simp: less_Suc_eq)
  from v ve have v1: "validEvents em = [] \<or> event \<in> set (validEvents em)" by auto
  from fr have lt: "fresh em0 < fresh em" by simp
  from h1 c have c': "less_than_one (decrement (count (heap em (fresh em0))))" by simp
  have first: "trace em' = trace em @ live em event \<and> fresh em0 \<notin> set (live em' event)"
    if "quiet call \<and> undisturbed call event (fresh em0) \<and> emit call em event args onErr = Some (em', Inr rs)"
    for call args onErr em' rs
    using that emit_trace [of call em event args onErr em' rs]
      emit_expired [of call event "fresh em0" em args onErr em' rs] lt c' c1 by auto
  have second: "\<exists>em'. emit call em event args onErr
                        = Some (em', Inr (map (\<lambda>l. ret (callback (heap em l)) (arguments args))
                                             (live em event)))
                  \<and> trace em' = trace em @ live em event \<and> fresh em0 \<notin> set (live em' event)"
    if t: "answers call ret \<and> undisturbed call event (fresh em0)" for call ret args onErr
  proof -
    from t have an: "answers call ret" and un: "undisturbed call event (fresh em0)" by simp_all
    from emit_answers [OF an v1 w1, of args onErr]
    obtain em' where e: "emit call em event args onErr
                        = Some (em', Inr (map (\<lambda>l. ret (callback (heap em l)) (arguments args))
                                             (live em event)))"
      and tr: "trace em' = trace em @ live em event" by blast
    from emit_expired [OF un e lt c' c1] e tr show ?thesis by blast
  qed
  from a h1 c1 first second show ?thesis by blast
qed

text \<open>So a listener registered with \<^verbatim>\<open>once\<close> is called once, and gone afterwards, as long
  as no listener gets a listener called.\<close>

lemma once_fires_once_when_quiet:
  assumes v: "validEvents em0 = [] \<or> (event \<in> set (validEvents em0) \<and> String ''newListener'' \<in> set (validEvents em0))"
    and n: "live em0 (String ''newListener'') = []"
    and d: "event \<noteq> String ''newListener''"
    and al: "allocated em0"
    and ap: "apart em0 event (String ''newListener'')"
    and w: "\<forall>l\<in>set (live em0 event). l < fresh em0"
  shows "\<exists>em. once call0 em0 event (Function f) opts = Some (em, Inr ())
       \<and> heap em (fresh em0) = \<lparr>callback = f, count = Finite 1\<rparr>
       \<and> count_list (live em event) (fresh em0) = 1
       \<and> (\<forall>call args onErr em' rs.
             quiet call \<and> undisturbed call event (fresh em0)
             \<and> emit call em event args onErr = Some (em', Inr rs) \<longrightarrow>
               trace em' = trace em @ live em event \<and> fresh em0 \<notin> set (live em' event))"
proof -
  have "less_than_one (decrement (registered_count (Some (with_count opts (Finite 1)))))"
    by (simp add: registered_count_def with_count_def)
  from registered_record_expires [OF v n d al ap w this, of call0 f]
  show ?thesis
    by (auto simp: once_def registered_count_def with_count_def)
qed


section \<open>Evaluating the examples\<close>

lemmas eval_defs = on_def once_def addListener_def removeListener_def listeners_def empty_emitter_def
  emit_def live_def insert_record_def with_count_def warn_leak_def expire_def splice1_def Let_def
  registered_count_def prepends_def options_val_def

lemma run_abc: "run abc (Suc 0) f results args em = Some (em, completion (abc f))"
  by (simp add: abc_def)

lemma quiet_abc: "quiet (run abc (Suc 0))"
  by (simp add: quiet_def run_abc del: run.simps)

lemma abc_emitter_fields:
  "live abc_emitter (String ''message'') = [0, 1, 2]"
  "trace abc_emitter = []"
  "listeners abc_emitter (String ''message'') = Inr (abc_emitter, 0)"
  by (simp_all add: abc_emitter_def eval_defs)

lemma quiet_meddle: "quiet meddle"
  by (auto simp: quiet_def meddle_def insert_record_fields split: option.splits)

lemma answers_meddle: "answers meddle (\<lambda>f args. Array (Number (Finite (of_nat f)) # args))"
  by (auto simp: answers_def meddle_def insert_record_fields split: option.splits)




text \<open>The example of the specification: of the listeners \<^verbatim>\<open>'a'\<close>, throws \<^verbatim>\<open>'e'\<close>, \<^verbatim>\<open>'b'\<close>,
  the first two are called and \<^verbatim>\<open>emit\<close> throws \<^verbatim>\<open>'e'\<close>.\<close>

theorem emit_unset_aborts_witness:
  "map_option (\<lambda>(em', r). (trace em', r))
     (emit (run abc (Suc 0)) abc_emitter (String ''message'') Undefined OnUndefined)
   = Some ([0, 1], Inl (String ''e''))"
proof -
  let ?call = "run abc (Suc 0)"
  let ?ev = "String ''message''"
  define em1 where "em1 = (expire 0 0 abc_emitter)\<lparr>trace := trace abc_emitter @ [0]\<rparr>"
  define em2 where "em2 = (expire 0 1 em1)\<lparr>trace := trace em1 @ [1]\<rparr>"
  have c0: "callback (heap abc_emitter 0) = 0" and c1: "callback (heap abc_emitter (Suc 0)) = Suc 0"
    by (simp_all add: abc_emitter_def eval_defs)
  have h2: "live abc_emitter ?ev = [0] @ 1 # [2]"
    by (simp add: abc_emitter_fields)
  have h3: "emit_loop ?call 0 (arguments Undefined) OnUndefined [0] abc_emitter []
              = Some (em1, Inr [String ''a''])"
    by (simp add: em1_def run_abc c0 abc_def del: run.simps)
  have h4: "?call (callback (heap em1 1)) [String ''a''] (arguments Undefined)
              ((expire 0 1 em1)\<lparr>trace := trace em1 @ [1]\<rparr>) = Some (em2, Inl (String ''e''))"
    by (simp add: em2_def em1_def run_abc c1 abc_def del: run.simps)
  from emit_unset_aborts [OF abc_emitter_fields(3) h2 h3 h4] quiet_abc
  show ?thesis by (simp add: abc_emitter_fields)
qed


text \<open>The example of the README: on an emitter made for \<^verbatim>\<open>message\<close>, \<^verbatim>\<open>on('exit', f)\<close>
  throws.\<close>

theorem allow_list_enforced_witness:
  "new_EventEmitter [String ''message''] = Inr message_only
   \<and> on (run abc 1) message_only (String ''exit'') (Function 0) None
       = Some (message_only, Inl (EventEmitterError ''Invalid event name: %s'' [String ''exit'']))
   \<and> emit (run abc 1) message_only (String ''exit'') Undefined OnNull
       = Some (message_only, Inl (EventEmitterError ''Invalid event name: %s'' [String ''exit'']))"
proof -
  have h: "new_EventEmitter [String ''message''] = Inr message_only"
    by (simp add: new_EventEmitter_def message_only_def)
  from allow_list_enforced [OF h, of message_only "String ''exit''" "run abc 1" "Function 0" None LiveArray Undefined OnNull]
    h show ?thesis by simp
qed


section \<open>The order of the calls\<close>

lemma upt_shift: "[a ..< a + Suc n] = a # [Suc a ..< Suc a + n]"
  by (subst upt_rec) simp

lemma on_each_appends:
  assumes d: "event \<noteq> String ''newListener''"
  shows "validEvents em = [] \<or> (event \<in> set (validEvents em) \<and> String ''newListener'' \<in> set (validEvents em))
    \<Longrightarrow> live em (String ''newListener'') = []
    \<Longrightarrow> allocated em
    \<Longrightarrow> apart em event (String ''newListener'')
    \<Longrightarrow> \<forall>reg\<in>set regs. \<not> prepends (snd reg)
    \<Longrightarrow> \<exists>em'. on_each call em event regs = Some (em', Inr ())
         \<and> live em' event = live em event @ [fresh em ..< fresh em + length regs]
         \<and> map (\<lambda>l. callback (heap em' l)) [fresh em ..< fresh em + length regs] = map fst regs
         \<and> (\<forall>l < fresh em. heap em' l = heap em l)
         \<and> fresh em' = fresh em + length regs
         \<and> validEvents em' = validEvents em
         \<and> trace em' = trace em"
proof (induction regs arbitrary: em)
  case Nil
  then show ?case by simp
next
  case (Cons reg regs)
  obtain f opts where reg: "reg = (f, opts)" by (cases reg)
  with Cons.prems(5) have np: "\<not> prepends (Some (with_count opts PosInfinity))"
    by (simp add: with_count_def prepends_def)
  from addListener_single [OF Cons.prems(1,2) d Cons.prems(3,4), of call f "Some (with_count opts PosInfinity)"] np
  obtain em1 where a: "on call em event (Function f) opts = Some (em1, Inr ())"
    and l: "live em1 event = live em event @ [fresh em]"
    and n1: "live em1 (String ''newListener'') = []"
    and al1: "allocated em1" and ap1: "apart em1 event (String ''newListener'')"
    and h: "heap em1 = (heap em)(fresh em := \<lparr>callback = f, count = registered_count (Some (with_count opts PosInfinity))\<rparr>)"
    and fr: "fresh em1 = Suc (fresh em)" and t: "trace em1 = trace em" and v: "validEvents em1 = validEvents em"
    by (auto simp: on_def)
  from Cons.prems v have v1: "validEvents em1 = [] \<or> (event \<in> set (validEvents em1) \<and> String ''newListener'' \<in> set (validEvents em1))"
    by simp
  from Cons.prems(5) have p1: "\<forall>reg\<in>set regs. \<not> prepends (snd reg)" by simp
  from Cons.IH [OF v1 n1 al1 ap1 p1]
  obtain em' where r: "on_each call em1 event regs = Some (em', Inr ())"
    and l': "live em' event = live em1 event @ [fresh em1 ..< fresh em1 + length regs]"
    and c': "map (\<lambda>l. callback (heap em' l)) [fresh em1 ..< fresh em1 + length regs] = map fst regs"
    and h': "\<forall>l < fresh em1. heap em' l = heap em1 l"
    and fr': "fresh em' = fresh em1 + length regs"
    and v': "validEvents em' = validEvents em1"
    and t': "trace em' = trace em1" by blast
  have u: "[fresh em ..< fresh em + length (reg # regs)] = fresh em # [fresh em1 ..< fresh em1 + length regs]"
    using upt_shift [of "fresh em" "length regs"] fr by simp
  from a r reg have "on_each call em event (reg # regs) = Some (em', Inr ())" by simp
  moreover from l l' have "live em' event = live em event @ [fresh em ..< fresh em + length (reg # regs)]"
    unfolding u by simp
  moreover from h h' fr c' reg
  have "map (\<lambda>l. callback (heap em' l)) [fresh em ..< fresh em + length (reg # regs)] = map fst (reg # regs)"
    unfolding u by simp
  moreover from h h' fr have "\<forall>l < fresh em. heap em' l = heap em l" by simp
  moreover from fr fr' have "fresh em' = fresh em + length (reg # regs)" by simp
  moreover from v v' have "validEvents em' = validEvents em" by simp
  moreover from t t' have "trace em' = trace em" by simp
  ultimately show ?case by - (rule exI [of _ em'], intro conjI, assumption+)
qed

text \<open>
  C5. Functions are registered with \<^verbatim>\<open>on\<close>, one after the other, each with options of its
  own but none with \<^verbatim>\<open>prepend\<close>, for an event the emitter accepts, while \<^verbatim>\<open>newListener\<close>
  has no listener and an array of its own (the addresses of arrays and records in
  use being below the next ones).
  Every registration succeeds; the array of the event is the one before, followed by
  the new records in the order of the registrations, the record of each function
  having that function as callback. In an emit of the event, listeners that call no
  listener may otherwise change the emitter as they like (they may add to the array
  of the event and remove from it, or store another array for the event): the
  records called are, in the order of the array, the first records of the array as
  it was at the start of the call, and when \<^verbatim>\<open>emit\<close> returns its results they are all
  of them, each called once. When the listeners answer with \<open>ret\<close>, the emit returns,
  and its results are the values the listeners returned for the arguments of the
  emit: first those of the listeners that were there, then those of the functions
  registered, in the order of their registration. The changes the listeners make do
  not reach the copy the loop runs over.
\<close>

theorem emit_in_insertion_order:
  assumes v: "validEvents em0 = [] \<or> (event \<in> set (validEvents em0) \<and> String ''newListener'' \<in> set (validEvents em0))"
    and n: "live em0 (String ''newListener'') = []"
    and d: "event \<noteq> String ''newListener''"
    and al: "allocated em0"
    and ap: "apart em0 event (String ''newListener'')"
    and w: "\<forall>l\<in>set (live em0 event). l < fresh em0"
    and p: "\<forall>reg\<in>set regs. \<not> prepends (snd reg)"
  shows "\<exists>em. on_each call0 em0 event regs = Some (em, Inr ())
       \<and> live em event = live em0 event @ [fresh em0 ..< fresh em0 + length regs]
       \<and> map (\<lambda>l. callback (heap em l)) [fresh em0 ..< fresh em0 + length regs] = map fst regs
       \<and> (\<forall>call args onErr em' r.
             quiet call \<and> emit call em event args onErr = Some (em', r) \<longrightarrow>
               (\<exists>k. trace em' = trace em @ take k (live em event))
               \<and> (\<forall>rs. r = Inr rs \<longrightarrow> trace em' = trace em @ live em event))
       \<and> (\<forall>call ret args onErr.
             answers call ret \<longrightarrow>
               (\<exists>em'. emit call em event args onErr
                        = Some (em', Inr (map (\<lambda>l. ret (callback (heap em0 l)) (arguments args)) (live em0 event)
                                          @ map (\<lambda>reg. ret (fst reg) (arguments args)) regs))
                  \<and> trace em' = trace em @ live em event))"
proof -
  let ?new = "[fresh em0 ..< fresh em0 + length regs]"
  from on_each_appends [OF d v n al ap p, of call0]
  obtain em where o: "on_each call0 em0 event regs = Some (em, Inr ())"
    and l: "live em event = live em0 event @ ?new"
    and c: "map (\<lambda>l. callback (heap em l)) ?new = map fst regs"
    and h: "\<forall>l < fresh em0. heap em l = heap em0 l"
    and fr: "fresh em = fresh em0 + length regs"
    and ve: "validEvents em = validEvents em0"
    by blast
  have first: "(\<exists>k. trace em' = trace em @ take k (live em event))
               \<and> (\<forall>rs. r = Inr rs \<longrightarrow> trace em' = trace em @ live em event)"
    if "quiet call \<and> emit call em event args onErr = Some (em', r)" for call args onErr em' r
    using that emit_trace [of call em event args onErr em'] emit_trace_prefix [of call em event args onErr em' r]
    by blast
  have second: "\<exists>em'. emit call em event args onErr
                        = Some (em', Inr (map (\<lambda>l. ret (callback (heap em0 l)) (arguments args)) (live em0 event)
                                          @ map (\<lambda>reg. ret (fst reg) (arguments args)) regs))
                  \<and> trace em' = trace em @ live em event"
    if an: "answers call ret" for call ret args onErr
  proof -
    from v ve have v1: "validEvents em = [] \<or> event \<in> set (validEvents em)" by auto
    from w l fr have w1: "\<forall>l\<in>set (live em event). l < fresh em" by auto
    from w h have old: "map (\<lambda>l. ret (callback (heap em l)) (arguments args)) (live em0 event)
                      = map (\<lambda>l. ret (callback (heap em0 l)) (arguments args)) (live em0 event)"
      by simp
    have "map (\<lambda>l. ret (callback (heap em l)) (arguments args)) ?new
            = map (\<lambda>f. ret f (arguments args)) (map (\<lambda>l. callback (heap em l)) ?new)"
      by (simp only: map_map o_def)
    also have "\<dots> = map (\<lambda>reg. ret (fst reg) (arguments args)) regs"
      unfolding c by (simp only: map_map o_def)
    finally have new: "map (\<lambda>l. ret (callback (heap em l)) (arguments args)) ?new
            = map (\<lambda>reg. ret (fst reg) (arguments args)) regs" .
    from emit_answers [OF an v1 w1, of args onErr] show ?thesis
      unfolding l map_append old new .
  qed
  from o l c first second show ?thesis by blast
qed

text \<open>Three listeners that each empty the array of the event and push a new record, and
  return their number with the argument: all three are called, in the order of their
  registration, and no other, and the results are theirs.\<close>

theorem emit_in_insertion_order_witness:
  "quiet meddle \<and> answers meddle (\<lambda>f args. Array (Number (Finite (of_nat f)) # args)) \<and>
   (\<exists>em'. emit meddle abc_emitter (String ''message'') (String ''hi'') OnNull
            = Some (em', Inr [Array [Number (Finite 0), String ''hi''],
                              Array [Number (Finite 1), String ''hi''],
                              Array [Number (Finite 2), String ''hi'']])
      \<and> trace em' = [0, 1, 2])"
proof -
  let ?ev = "String ''message''"
  let ?regs = "[(0, None), (1, None), (2, None)] :: (nat \<times> options option) list"
  have h: "validEvents empty_emitter = [] \<or> (?ev \<in> set (validEvents empty_emitter) \<and> String ''newListener'' \<in> set (validEvents empty_emitter))"
    "live empty_emitter (String ''newListener'') = []" "?ev \<noteq> String ''newListener''"
    "allocated empty_emitter" "apart empty_emitter ?ev (String ''newListener'')"
    "\<forall>l\<in>set (live empty_emitter ?ev). l < fresh empty_emitter"
    "\<forall>reg\<in>set ?regs. \<not> prepends (snd reg)"
    by (simp_all add: empty_emitter_def live_def allocated_def apart_def prepends_def)
  have e: "live empty_emitter ?ev = []" by (simp add: empty_emitter_def live_def)
  from emit_in_insertion_order [OF h, of "run abc 1"]
  obtain em where o: "on_each (run abc 1) empty_emitter ?ev ?regs = Some (em, Inr ())"
    and a: "\<forall>call ret args onErr.
             answers call ret \<longrightarrow>
               (\<exists>em'. emit call em ?ev args onErr
                        = Some (em', Inr (map (\<lambda>l. ret (callback (heap empty_emitter l)) (arguments args)) (live empty_emitter ?ev)
                                          @ map (\<lambda>reg. ret (fst reg) (arguments args)) ?regs))
                  \<and> trace em' = trace em @ live em ?ev)"
    by blast
  from o have "em = abc_emitter" by (simp add: abc_emitter_def)
  with a answers_meddle
  obtain em' where "emit meddle abc_emitter ?ev (String ''hi'') OnNull
                        = Some (em', Inr (map (\<lambda>l. Array (Number (Finite (of_nat (callback (heap empty_emitter l)))) # arguments (String ''hi''))) (live empty_emitter ?ev)
                                          @ map (\<lambda>reg. Array (Number (Finite (of_nat (fst reg))) # arguments (String ''hi''))) ?regs))"
    and "trace em' = trace abc_emitter @ live abc_emitter ?ev"
    by blast
  with quiet_meddle answers_meddle e show ?thesis by (simp add: abc_emitter_fields)
qed

section \<open>A listener registered with once\<close>

text \<open>
  C4. The script runs to its end, and the calls it makes are those of the records
  2, 3 and 3: the record 3, registered with \<^verbatim>\<open>once\<close> for \<^verbatim>\<open>removeListener\<close>, is called
  twice. The emit of \<^verbatim>\<open>removeListener\<close> for \<^verbatim>\<open>z\<close> copies the array \<open>[2, 3]\<close>; the listener
  of record 2 removes a listener, so that \<^verbatim>\<open>removeListener\<close> is emitted again, with
  the copy \<open>[3]\<close>, which takes the record 3 out of the array and calls it; back in the
  first emit, the record 3 is still in its copy, and is called again.
\<close>

theorem once_listener_called_twice:
  "map_option (\<lambda>(em, r). (trace em, map (\<lambda>l. callback (heap em l)) (trace em), r))
     (exec_body (run reentrant 3) reentrant_script (Inr Undefined) empty_emitter)
   = Some ([2, 3, 3], [2, 3, 3], Inr Undefined)"
  by (simp add: reentrant_script_def reentrant_def eval_defs numeral_3_eq_3)

section \<open>A count below 1 behind other listeners\<close>


text \<open>
  Why the array of the event must stay in the Map. The listeners store a copy of the
  array in the Map at every call. The emit takes the record 1, whose count is 0, out
  of the array it read at its start, which the Map no longer holds: the record is
  called once, but it stays in the array of the event, and the next emit calls it
  again.
\<close>

lemma rebound_array_keeps_record:
  "map_option (\<lambda>(em, r). (trace em, live em (String ''message''), count (heap em 1), r))
     (emit rebind mixed_emitter (String ''message'') Undefined OnUndefined)
   = Some ([0, 1], [0, 1], Finite (- 1), Inr [Undefined, Undefined])
   \<and> (case emit rebind mixed_emitter (String ''message'') Undefined OnUndefined of
        None \<Rightarrow> None
      | Some (em1, _) \<Rightarrow>
          map_option (\<lambda>(em, r). trace em) (emit rebind em1 (String ''message'') Undefined OnUndefined))
     = Some [0, 1, 0, 1]"
  by (simp add: mixed_emitter_def rebind_def eval_defs)

section \<open>The promise of emit2\<close>

lemma faithful_settle: "faithful h \<Longrightarrow> faithful (settle h index s)"
proof (cases "index \<in> set (waiting h)")
  case False
  assume "faithful h"
  with False show ?thesis by (simp add: settle_def)
next
  case True
  assume f: "faithful h"
  with True have nf: "\<And>rs. outcome h \<noteq> Fulfilled rs" by (auto simp: faithful_def)
  show ?thesis
  proof (cases s)
    case (Inr v)
    with True nf show ?thesis
      by (auto simp: settle_def Let_def faithful_def all_done_def)
  next
    case (Inl error)
    with True nf show ?thesis
      by (auto simp: settle_def Let_def faithful_def all_done_def split: sum.splits)
  qed
qed

lemma faithful_settle_all: "faithful h \<Longrightarrow> faithful (settle_all h sched)"
  by (induction sched arbitrary: h) (auto simp: faithful_settle)

lemma emit2_handle:
  assumes "emit2 call em event args onErr = Some (em', Inr h0)"
  shows "\<exists>rs. emit call em event args onErr = Some (em', Inr rs) \<and> entries h0 = rs
     \<and> waiting h0 = promise_indices rs \<and> directive h0 = onErr \<and> faithful h0"
  using assms
  by (auto simp: emit2_def all_done_def faithful_def split: option.splits sum.splits if_splits)

lemma set_promise_indices: "set (promise_indices rs) = {i. i < length rs \<and> is_promise (rs ! i)}"
  by (auto simp: promise_indices_def)

text \<open>
  C6, as the code has it. For an \<^verbatim>\<open>emit2\<close> whose \<^verbatim>\<open>emit\<close> returned: the promise holds the
  array of \<^verbatim>\<open>emit\<close> and waits for exactly the entries that are promises. However the
  promises settle, when the promise of \<^verbatim>\<open>emit2\<close> is fulfilled none of them is left
  waiting, and the value is the array as it stands. When the promise is pending and
  the rejection of an entry is thrown on by \<^verbatim>\<open>handleError\<close>, the promise is rejected
  with it at once, whichever other entries are still waiting. These are not
  cancelled: an entry that settles after the rejection is still written to the array.
\<close>

theorem emit2_settles:
  assumes "emit2 call em event args onErr = Some (em', Inr h0)"
  shows "(\<exists>rs. emit call em event args onErr = Some (em', Inr rs) \<and> entries h0 = rs
            \<and> set (waiting h0) = {i. i < length rs \<and> is_promise (rs ! i)})
     \<and> (\<forall>sched rs. outcome (settle_all h0 sched) = Fulfilled rs \<longrightarrow>
           waiting (settle_all h0 sched) = [] \<and> rs = entries (settle_all h0 sched))
     \<and> (\<forall>h index error thrown.
           outcome h = Pending \<and> index \<in> set (waiting h)
           \<and> handleError (entries h) error (directive h) (Some index) = Inl thrown \<longrightarrow>
             outcome (settle h index (Inl error)) = Rejected thrown
             \<and> waiting (settle h index (Inl error)) = remove1 index (waiting h)
             \<and> entries (settle h index (Inl error)) = entries h)
     \<and> (\<forall>h index v thrown.
           outcome h = Rejected thrown \<and> index \<in> set (waiting h) \<longrightarrow>
             outcome (settle h index (Inr v)) = Rejected thrown
             \<and> waiting (settle h index (Inr v)) = remove1 index (waiting h)
             \<and> entries (settle h index (Inr v)) = store (entries h) index v)"
proof (intro conjI allI impI)
  from emit2_handle [OF assms]
  show "\<exists>rs. emit call em event args onErr = Some (em', Inr rs) \<and> entries h0 = rs
            \<and> set (waiting h0) = {i. i < length rs \<and> is_promise (rs ! i)}"
    by (auto simp: set_promise_indices)
next
  fix sched rs
  assume "outcome (settle_all h0 sched) = Fulfilled rs"
  moreover from emit2_handle [OF assms] have "faithful (settle_all h0 sched)"
    by (auto intro: faithful_settle_all)
  ultimately show "waiting (settle_all h0 sched) = []" and "rs = entries (settle_all h0 sched)"
    by (auto simp: faithful_def)
next
  fix h :: handle and index error thrown
  assume a: "outcome h = Pending \<and> index \<in> set (waiting h)
           \<and> handleError (entries h) error (directive h) (Some index) = Inl thrown"
  then show "outcome (settle h index (Inl error)) = Rejected thrown"
    and "waiting (settle h index (Inl error)) = remove1 index (waiting h)"
    and "entries (settle h index (Inl error)) = entries h"
    by (simp_all add: settle_def Let_def)
next
  fix h :: handle and index v thrown
  assume a: "outcome h = Rejected thrown \<and> index \<in> set (waiting h)"
  then show "outcome (settle h index (Inr v)) = Rejected thrown"
    and "waiting (settle h index (Inr v)) = remove1 index (waiting h)"
    and "entries (settle h index (Inr v)) = store (entries h) index v"
    by (simp_all add: settle_def Let_def all_done_def)
qed

lemma emit2_two:
  "emit2 (run promising (Suc 0)) two_emitter (String ''message'') Undefined OnUndefined
     = Some (fst (the (emit (run promising (Suc 0)) two_emitter (String ''message'') Undefined OnUndefined)),
         Inr \<lparr>entries = [Promise 0, Promise 1], waiting = [1, 0], directive = OnUndefined, outcome = Pending\<rparr>)"
  by (simp add: emit2_def two_emitter_def eval_defs promising_def promise_indices_def all_done_def)

lemma promised_eq:
  "promised = \<lparr>entries = [Promise 0, Promise 1], waiting = [1, 0], directive = OnUndefined, outcome = Pending\<rparr>"
  by (simp add: promised_def emit2_two del: run.simps)

text \<open>
  Two listeners return the promises 0 and 1, and \<^verbatim>\<open>emit2\<close> is called with no directive.
  Its promise is pending and waits for both entries. The promise 1 is rejected with
  \<^verbatim>\<open>'e'\<close>: the promise of \<^verbatim>\<open>emit2\<close> is rejected with \<^verbatim>\<open>'e'\<close> while the entry 0 is still
  waiting.
\<close>

theorem emit2_rejects_early:
  "map_option (isl \<circ> snd)
     (emit2 (run promising (Suc 0)) two_emitter (String ''message'') Undefined OnUndefined) = Some False
   \<and> entries promised = [Promise 0, Promise 1]
   \<and> waiting promised = [1, 0]
   \<and> outcome promised = Pending
   \<and> outcome (settle promised 1 (Inl (String ''e''))) = Rejected (String ''e'')
   \<and> waiting (settle promised 1 (Inl (String ''e''))) = [0]"
  by (simp add: emit2_two promised_eq settle_def del: run.simps)

theorem emit2_settles_witness:
  "outcome (settle_all promised [(1, Inr (String ''b'')), (0, Inr (String ''a''))])
     = Fulfilled [String ''a'', String ''b'']
   \<and> waiting (settle_all promised [(1, Inr (String ''b'')), (0, Inr (String ''a''))]) = []
   \<and> outcome (settle_all promised [(1, Inr (String ''b''))]) = Pending
   \<and> outcome (settle promised 1 (Inl (String ''e''))) = Rejected (String ''e'')
   \<and> entries (settle (settle promised 1 (Inl (String ''e''))) 0 (Inr (String ''a'')))
     = [String ''a'', Promise 1]"
proof -
  let ?e2 = "emit2 (run promising (Suc 0)) two_emitter (String ''message'') Undefined OnUndefined"
  have h: "?e2 = Some (fst (the (emit (run promising (Suc 0)) two_emitter (String ''message'') Undefined OnUndefined)),
                       Inr promised)"
    by (simp add: emit2_two promised_eq del: run.simps)
  have p: "outcome promised = Pending \<and> 1 \<in> set (waiting promised)
           \<and> handleError (entries promised) (String ''e'') (directive promised) (Some 1) = Inl (String ''e'')"
    by (simp add: promised_eq)
  from emit2_settles [OF h] p
  have "outcome (settle promised 1 (Inl (String ''e''))) = Rejected (String ''e'')" by blast
  moreover have "outcome (settle_all promised [(1, Inr (String ''b'')), (0, Inr (String ''a''))])
                   = Fulfilled [String ''a'', String ''b'']"
    by (simp add: promised_eq settle_def all_done_def store_def)
  moreover from emit2_settles [OF h] this
  have "waiting (settle_all promised [(1, Inr (String ''b'')), (0, Inr (String ''a''))]) = []" by blast
  moreover have "outcome (settle_all promised [(1, Inr (String ''b''))]) = Pending"
    by (simp add: promised_eq settle_def all_done_def store_def)
  moreover have "entries (settle (settle promised 1 (Inl (String ''e''))) 0 (Inr (String ''a'')))
                   = [String ''a'', Promise 1]"
    by (simp add: promised_eq settle_def all_done_def store_def)
  ultimately show ?thesis by simp
qed

end
